theory Spec2Isabelle
  imports Main
begin

section \<open>Text model\<close>

text \<open>
  A Python \<open>str\<close> is a sequence of Unicode code points. A code point is a natural number
  and a string is a list of them; \<open>S\<close> turns an ASCII literal into such a string.
\<close>

type_synonym ustr = "nat list"

definition S :: "string \<Rightarrow> ustr" where
  "S s = map of_char s"

definition c_open :: nat where "c_open = 123"
definition c_close :: nat where "c_close = 125"

section \<open>Brace matcher\<close>

text \<open>
  \<open>find_matching_brace(text, start_pos)\<close>: the loop \<open>for i in range(start_pos, len(text))\<close>
  runs over the characters from \<open>start_pos\<close> on, with the index \<open>i\<close> and the counter
  \<open>depth\<close> as loop state. \<open>None\<close> is the sentinel \<open>-1\<close>.
\<close>

fun scan_braces :: "ustr \<Rightarrow> nat \<Rightarrow> int \<Rightarrow> nat option" where
  "scan_braces [] i depth = None"
| "scan_braces (ch # rest) i depth =
     (if ch = c_open then scan_braces rest (i + 1) (depth + 1)
      else if ch = c_close then
        (if depth - 1 = 0 then Some i else scan_braces rest (i + 1) (depth - 1))
      else scan_braces rest (i + 1) depth)"

definition find_matching_brace :: "ustr \<Rightarrow> nat \<Rightarrow> nat option" where
  "find_matching_brace text start_pos = scan_braces (drop start_pos text) start_pos 0"

section \<open>Brace matcher: specification\<close>

text \<open>
  The spec's words for the contract: a running depth counter, incremented on an opening
  brace and decremented on a closing one. \<open>depth_after text i k\<close> is the counter after
  the characters \<open>i..k\<close>; \<open>first_zero text i j\<close> says that \<open>j\<close> is a closing brace and the
  first index after \<open>i\<close> at which the counter is back to zero; \<open>balanced\<close> is the usual
  check that no prefix closes more than it opens and the whole buffer closes everything.
\<close>

definition delta :: "nat \<Rightarrow> int" where
  "delta ch = (if ch = c_open then 1 else if ch = c_close then - 1 else 0)"

definition depth_after :: "ustr \<Rightarrow> nat \<Rightarrow> nat \<Rightarrow> int" where
  "depth_after text i k = sum_list (map delta (take (Suc k - i) (drop i text)))"

fun bal :: "ustr \<Rightarrow> int \<Rightarrow> bool" where
  "bal [] d = (d = 0)"
| "bal (ch # rest) d =
     (if ch = c_open then bal rest (d + 1)
      else if ch = c_close then (0 < d \<and> bal rest (d - 1))
      else bal rest d)"

definition balanced :: "ustr \<Rightarrow> bool" where
  "balanced text = bal text 0"

definition first_zero :: "ustr \<Rightarrow> nat \<Rightarrow> nat \<Rightarrow> bool" where
  "first_zero text i j =
     (i < j \<and> j < length text \<and> text ! j = c_close \<and> depth_after text i j = 0 \<and>
      (\<forall>k. i \<le> k \<and> k < j \<longrightarrow> depth_after text i k \<noteq> 0))"

section \<open>Brace matcher: proofs\<close>

lemma scan_braces_Some:
  "1 \<le> d \<Longrightarrow> scan_braces cs i d = Some j \<Longrightarrow>
     i \<le> j \<and> j - i < length cs \<and> cs ! (j - i) = c_close \<and>
     d + sum_list (map delta (take (Suc (j - i)) cs)) = 0 \<and>
     (\<forall>m<j - i. 0 < d + sum_list (map delta (take (Suc m) cs)))"
proof (induction cs arbitrary: i d)
  case Nil
  then show ?case by simp
next
  case (Cons ch rest)
  show ?case
  proof (cases "ch = c_close \<and> d - 1 = 0")
    case True
    with Cons.prems have "j = i" by (auto simp: c_open_def c_close_def)
    with True show ?thesis by (simp add: delta_def c_open_def c_close_def)
  next
    case False
    define d' where "d' = d + delta ch"
    from False Cons.prems have rec: "scan_braces rest (i + 1) d' = Some j" and d': "1 \<le> d'"
      by (auto simp: d'_def delta_def split: if_splits)
    from Cons.IH[OF d' rec] have ih:
      "i + 1 \<le> j" "j - (i + 1) < length rest" "rest ! (j - (i + 1)) = c_close"
      "d' + sum_list (map delta (take (Suc (j - (i + 1))) rest)) = 0"
      "\<forall>m<j - (i + 1). 0 < d' + sum_list (map delta (take (Suc m) rest))"
      by auto
    from ih(1) obtain k where k: "j - i = Suc k" "j - (i + 1) = k"
      by (metis Suc_diff_Suc Suc_eq_plus1 Suc_le_lessD)
    have all: "\<forall>m<Suc k. 0 < d + sum_list (map delta (take (Suc m) (ch # rest)))"
    proof (intro allI impI)
      fix m assume "m < Suc k"
      show "0 < d + sum_list (map delta (take (Suc m) (ch # rest)))"
      proof (cases m)
        case 0
        then show ?thesis using d' by (simp add: d'_def)
      next
        case (Suc m')
        with \<open>m < Suc k\<close> ih(5) k have "0 < d' + sum_list (map delta (take (Suc m') rest))" by simp
        then show ?thesis using Suc by (simp add: d'_def)
      qed
    qed
    from ih k all show ?thesis by (simp add: d'_def)
  qed
qed

lemma scan_braces_None:
  "1 \<le> d \<Longrightarrow> scan_braces cs i d = None \<Longrightarrow>
     \<forall>m<length cs. 0 < d + sum_list (map delta (take (Suc m) cs))"
proof (induction cs arbitrary: i d)
  case Nil
  then show ?case by simp
next
  case (Cons ch rest)
  define d' where "d' = d + delta ch"
  from Cons.prems have rec: "scan_braces rest (i + 1) d' = None" and d': "1 \<le> d'"
    by (auto simp: d'_def delta_def split: if_splits)
  from Cons.IH[OF d' rec] have ih: "\<forall>m<length rest. 0 < d' + sum_list (map delta (take (Suc m) rest))" .
  show ?case
  proof (intro allI impI)
    fix m assume m: "m < length (ch # rest)"
    show "0 < d + sum_list (map delta (take (Suc m) (ch # rest)))"
    proof (cases m)
      case 0
      then show ?thesis using d' by (simp add: d'_def)
    next
      case (Suc m')
      with m ih have "0 < d' + sum_list (map delta (take (Suc m') rest))" by simp
      then show ?thesis using Suc by (simp add: d'_def)
    qed
  qed
qed

lemma scan_braces_bal:
  "bal cs e \<Longrightarrow> 1 \<le> d \<Longrightarrow> d \<le> e \<Longrightarrow> \<exists>j. scan_braces cs i d = Some j"
proof (induction cs arbitrary: i d e)
  case Nil
  then show ?case by simp
next
  case (Cons ch rest)
  then show ?case
    by (cases "ch = c_open"; cases "ch = c_close"; cases "d - 1 = 0")
       (force simp: c_open_def c_close_def)+
qed

lemma bal_drop: "bal (xs @ ys) d \<Longrightarrow> 0 \<le> d \<Longrightarrow> \<exists>d'\<ge>0. bal ys d'"
proof (induction xs arbitrary: d)
  case Nil
  then show ?case by auto
next
  case (Cons ch rest)
  then show ?case
    by (cases "ch = c_open"; cases "ch = c_close") (force simp: c_open_def c_close_def)+
qed

lemma drop_open:
  assumes "i < length text" "text ! i = c_open"
  shows "drop i text = c_open # drop (Suc i) text"
  using assms by (metis Cons_nth_drop_Suc)

lemma fmb_unfold:
  assumes "i < length text" "text ! i = c_open"
  shows "find_matching_brace text i = scan_braces (drop (Suc i) text) (Suc i) 1"
  using drop_open[OF assms] by (simp add: find_matching_brace_def)

lemma depth_after_unfold:
  assumes "i < length text" "text ! i = c_open" "i \<le> k"
  shows "depth_after text i k = 1 + sum_list (map delta (take (k - i) (drop (Suc i) text)))"
proof -
  from assms(3) have "Suc k - i = Suc (k - i)" by simp
  then show ?thesis
    using drop_open[OF assms(1,2)] by (simp add: depth_after_def delta_def)
qed

lemma fmb_Some_first_zero:
  assumes "i < length text" "text ! i = c_open" "find_matching_brace text i = Some j"
  shows "first_zero text i j"
proof -
  let ?rest = "drop (Suc i) text"
  from assms have sc: "scan_braces ?rest (Suc i) 1 = Some j" by (simp add: fmb_unfold)
  from scan_braces_Some[OF _ sc] have
    a: "Suc i \<le> j" and b: "j - Suc i < length ?rest" and c: "?rest ! (j - Suc i) = c_close"
    and d: "1 + sum_list (map delta (take (Suc (j - Suc i)) ?rest)) = 0"
    and e: "\<forall>m<j - Suc i. 0 < 1 + sum_list (map delta (take (Suc m) ?rest))"
    by auto
  from a b have jl: "j < length text" by simp
  from a c have tj: "text ! j = c_close" using jl by simp
  from a have ji: "Suc (j - Suc i) = j - i" by simp
  have dz: "depth_after text i j = 0"
    using depth_after_unfold[OF assms(1,2), of j] a d ji by simp
  have nz: "depth_after text i k \<noteq> 0" if "i \<le> k" "k < j" for k
  proof (cases "k = i")
    case True
    then show ?thesis using depth_after_unfold[OF assms(1,2), of i] by simp
  next
    case False
    with that have "k - Suc i < j - Suc i" "Suc (k - Suc i) = k - i" by simp_all
    with e have "0 < 1 + sum_list (map delta (take (k - i) ?rest))" by metis
    then show ?thesis using depth_after_unfold[OF assms(1,2) that(1)] by simp
  qed
  from a jl tj dz nz show ?thesis by (simp add: first_zero_def)
qed

lemma fmb_None_no_zero:
  assumes "i < length text" "text ! i = c_open" "find_matching_brace text i = None"
    "i \<le> k" "k < length text"
  shows "0 < depth_after text i k"
proof (cases "k = i")
  case True
  then show ?thesis using depth_after_unfold[OF assms(1,2), of i] by simp
next
  case False
  let ?rest = "drop (Suc i) text"
  from assms have sc: "scan_braces ?rest (Suc i) 1 = None" by (simp add: fmb_unfold)
  from False assms have "k - Suc i < length ?rest" "Suc (k - Suc i) = k - i" by simp_all
  with scan_braces_None[OF _ sc] have "0 < 1 + sum_list (map delta (take (k - i) ?rest))"
    by (metis order_refl)
  then show ?thesis using depth_after_unfold[OF assms(1,2,4)] by simp
qed

lemma first_zero_unique: "first_zero text i j \<Longrightarrow> first_zero text i j' \<Longrightarrow> j = j'"
  unfolding first_zero_def by (metis less_imp_le_nat nat_neq_iff)

lemma balanced_found:
  assumes "i < length text" "text ! i = c_open" "balanced text"
  shows "\<exists>j. find_matching_brace text i = Some j"
proof -
  have "text = take i text @ drop i text" by simp
  with assms(3) have "bal (take i text @ c_open # drop (Suc i) text) 0"
    using drop_open[OF assms(1,2)] by (simp add: balanced_def)
  from bal_drop[OF this] obtain d' where d': "0 \<le> d'" "bal (c_open # drop (Suc i) text) d'"
    by auto
  then have "bal (drop (Suc i) text) (d' + 1)" by simp
  from scan_braces_bal[OF this, of 1 "Suc i"] d'(1) show ?thesis
    using fmb_unfold[OF assms(1,2)] by simp
qed

lemma depth_after_take:
  "k < m \<Longrightarrow> depth_after (take m text) i k = depth_after text i k"
  by (simp add: depth_after_def drop_take min_def take_take)

text \<open>
  Claim C1. For a buffer and an index \<open>i\<close> of an opening brace: in a buffer with balanced
  braces the matcher finds a closing brace; it returns \<open>j\<close> exactly when \<open>j\<close> is the closing
  brace at which the running depth first returns to zero after \<open>i\<close>; it reports not-found
  exactly when the depth never returns to zero before the end of the buffer; and every
  truncation of the buffer that removes the matching closing brace makes it report
  not-found. The function is total, so it never raises.
\<close>

theorem find_matching_brace_spec:
  assumes "i < length text" and "text ! i = c_open"
  shows "(balanced text \<longrightarrow> (\<exists>j. find_matching_brace text i = Some j)) \<and>
         (\<forall>j. find_matching_brace text i = Some j \<longleftrightarrow> first_zero text i j) \<and>
         (find_matching_brace text i = None \<longleftrightarrow>
            (\<forall>k. i \<le> k \<and> k < length text \<longrightarrow> depth_after text i k \<noteq> 0)) \<and>
         (\<forall>j m. find_matching_brace text i = Some j \<and> i < m \<and> m \<le> j \<longrightarrow>
            find_matching_brace (take m text) i = None)"
proof (intro conjI allI impI)
  assume "balanced text"
  then show "\<exists>j. find_matching_brace text i = Some j" by (rule balanced_found[OF assms])
next
  fix j
  show "find_matching_brace text i = Some j \<longleftrightarrow> first_zero text i j"
  proof
    assume "find_matching_brace text i = Some j"
    then show "first_zero text i j" by (rule fmb_Some_first_zero[OF assms])
  next
    assume fz: "first_zero text i j"
    show "find_matching_brace text i = Some j"
    proof (cases "find_matching_brace text i")
      case None
      from fz have "i \<le> j" "j < length text" "depth_after text i j = 0"
        by (simp_all add: first_zero_def)
      with fmb_None_no_zero[OF assms None, of j] show ?thesis by simp
    next
      case (Some j')
      from fmb_Some_first_zero[OF assms Some] fz have "j' = j" by (rule first_zero_unique)
      with Some show ?thesis by simp
    qed
  qed
next
  show "find_matching_brace text i = None \<longleftrightarrow>
          (\<forall>k. i \<le> k \<and> k < length text \<longrightarrow> depth_after text i k \<noteq> 0)"
  proof
    assume "find_matching_brace text i = None"
    then show "\<forall>k. i \<le> k \<and> k < length text \<longrightarrow> depth_after text i k \<noteq> 0"
      using fmb_None_no_zero[OF assms] by fastforce
  next
    assume nz: "\<forall>k. i \<le> k \<and> k < length text \<longrightarrow> depth_after text i k \<noteq> 0"
    show "find_matching_brace text i = None"
    proof (cases "find_matching_brace text i")
      case None
      then show ?thesis .
    next
      case (Some j)
      from fmb_Some_first_zero[OF assms Some] nz show ?thesis
        by (auto simp: first_zero_def)
    qed
  qed
next
  fix j m
  assume h: "find_matching_brace text i = Some j \<and> i < m \<and> m \<le> j"
  then have fz: "first_zero text i j" using fmb_Some_first_zero[OF assms] by simp
  from h fz have len: "i < length (take m text)" and op: "take m text ! i = c_open"
    using assms by (simp_all add: first_zero_def)
  show "find_matching_brace (take m text) i = None"
  proof (cases "find_matching_brace (take m text) i")
    case None
    then show ?thesis .
  next
    case (Some j')
    from fmb_Some_first_zero[OF len op Some] have
      a: "i < j'" "j' < length (take m text)" "depth_after (take m text) i j' = 0"
      by (simp_all add: first_zero_def)
    then have "j' < m" by simp
    with a(3) have "depth_after text i j' = 0" by (simp add: depth_after_take)
    moreover from \<open>j' < m\<close> h a(1) have "i \<le> j'" "j' < j" by simp_all
    ultimately show ?thesis using fz by (auto simp: first_zero_def)
  qed
qed

theorem find_matching_brace_spec_witness:
  "balanced (S ''a{b{c}d}e'') \<and>
   find_matching_brace (S ''a{b{c}d}e'') 1 = Some 7 \<and>
   first_zero (S ''a{b{c}d}e'') 1 7 \<and>
   find_matching_brace (take 7 (S ''a{b{c}d}e'')) 1 = None \<and>
   find_matching_brace (S ''a{b{c}d'') 1 = None"
proof -
  let ?t = "S ''a{b{c}d}e''"
  have h1: "1 < length ?t" by (simp add: S_def)
  have h2: "?t ! 1 = c_open" by (simp add: S_def c_open_def)
  have b: "balanced ?t" by (simp add: balanced_def S_def c_open_def c_close_def)
  note spec = find_matching_brace_spec[OF h1 h2]
  from spec b obtain j where j: "find_matching_brace ?t 1 = Some j" by blast
  have e: "find_matching_brace ?t 1 = Some 7"
    by (simp add: find_matching_brace_def S_def c_open_def c_close_def)
  from spec e have fz: "first_zero ?t 1 7" by blast
  from spec have trunc: "\<forall>j m. find_matching_brace ?t 1 = Some j \<and> 1 < m \<and> m \<le> j \<longrightarrow>
      find_matching_brace (take m ?t) 1 = None" by blast
  from e have "find_matching_brace ?t 1 = Some 7 \<and> (1::nat) < 7 \<and> (7::nat) \<le> 7" by simp
  with trunc have tr: "find_matching_brace (take 7 ?t) 1 = None" by blast
  have "take 7 ?t = S ''a{b{c}d''" by (simp add: S_def)
  with b e fz tr show ?thesis by simp
qed

section \<open>Character classes\<close>

text \<open>
  The regular expressions and \<open>str.strip()\<close> of the source classify code points with
  Python's Unicode tables (\<open>\s\<close> and \<open>strip\<close> by \<open>str.isspace\<close>, \<open>\w\<close> by
  \<open>str.isalnum\<close> or underscore, \<open>\d\<close> by the decimal digits). The ASCII part of the
  tables is written out; the part from code point 128 on is a parameter, so every
  theorem holds whatever the tables say there. The record also carries the one limit
  of the interpreter that the source meets: \<open>sys.get_int_max_str_digits()\<close>, the longest
  string of digits that \<open>int\<close> converts before it raises \<open>ValueError\<close>. CPython sets it to
  4300 unless told otherwise, 0 switches the limit off, and no value from 1 to 639 can be
  set.
\<close>

record unicode =
  u_space :: "nat \<Rightarrow> bool"
  u_word :: "nat \<Rightarrow> bool"
  u_digit :: "nat \<Rightarrow> nat option"
  u_max_str_digits :: nat

text \<open>
  A table with nothing beyond ASCII and the interpreter's default limit, for evaluating
  examples.
\<close>

definition ascii_only :: unicode where
  "ascii_only = \<lparr>u_space = (\<lambda>_. False), u_word = (\<lambda>_. False), u_digit = (\<lambda>_. None),
     u_max_str_digits = 4300\<rparr>"

definition is_space :: "unicode \<Rightarrow> nat \<Rightarrow> bool" where
  "is_space U c = (if c < 128 then (9 \<le> c \<and> c \<le> 13) \<or> (28 \<le> c \<and> c \<le> 32) else u_space U c)"

definition is_ascii_word :: "nat \<Rightarrow> bool" where
  "is_ascii_word c = ((65 \<le> c \<and> c \<le> 90) \<or> (97 \<le> c \<and> c \<le> 122) \<or> (48 \<le> c \<and> c \<le> 57) \<or> c = 95)"

definition is_word :: "unicode \<Rightarrow> nat \<Rightarrow> bool" where
  "is_word U c = (if c < 128 then is_ascii_word c else u_word U c)"

definition digit_val :: "unicode \<Rightarrow> nat \<Rightarrow> nat option" where
  "digit_val U c = (if c < 128 then (if 48 \<le> c \<and> c \<le> 57 then Some (c - 48) else None) else u_digit U c)"

definition is_digit :: "unicode \<Rightarrow> nat \<Rightarrow> bool" where
  "is_digit U c = (digit_val U c \<noteq> None)"

text \<open>\<open>s.strip()\<close>: leading and trailing whitespace removed.\<close>

definition py_strip :: "unicode \<Rightarrow> ustr \<Rightarrow> ustr" where
  "py_strip U s = rev (dropWhile (is_space U) (rev (dropWhile (is_space U) s)))"

section \<open>Regular expressions\<close>

text \<open>
  The patterns of the source are sequences of these items: a literal character, a
  character class, a greedy \<open>*\<close> or \<open>+\<close> over a class, an alternation of literal words,
  \<open>\b\<close>, \<open>^\<close> and \<open>$\<close>. \<open>match_here\<close> is the backtracking matcher of Python's \<open>re\<close> at
  one start position: a greedy repetition tries the longest run first and gives
  characters back one at a time, an alternation tries its words in order. The result
  is the end position of every item of the first match found, or \<open>None\<close>.
\<close>

datatype item = Lit nat | Cls "nat \<Rightarrow> bool" | Star "nat \<Rightarrow> bool" | Plus "nat \<Rightarrow> bool"
  | Alt "ustr list" | WordB | Bol | Eol

definition run_len :: "(nat \<Rightarrow> bool) \<Rightarrow> ustr \<Rightarrow> nat \<Rightarrow> nat" where
  "run_len p text pos = length (takeWhile p (drop pos text))"

fun first_down :: "(nat \<Rightarrow> 'a option) \<Rightarrow> nat \<Rightarrow> nat \<Rightarrow> 'a option" where
  "first_down f pos 0 = f pos"
| "first_down f pos (Suc k) =
     (case f (pos + Suc k) of Some r \<Rightarrow> Some r | None \<Rightarrow> first_down f pos k)"

fun first_of :: "('b \<Rightarrow> 'a option) \<Rightarrow> 'b list \<Rightarrow> 'a option" where
  "first_of f [] = None"
| "first_of f (w # ws) = (case f w of Some r \<Rightarrow> Some r | None \<Rightarrow> first_of f ws)"

definition word_at :: "unicode \<Rightarrow> ustr \<Rightarrow> nat \<Rightarrow> bool" where
  "word_at U text pos = (pos < length text \<and> is_word U (text ! pos))"

definition word_boundary :: "unicode \<Rightarrow> ustr \<Rightarrow> nat \<Rightarrow> bool" where
  "word_boundary U text pos =
     ((0 < pos \<and> word_at U text (pos - 1)) \<noteq> word_at U text pos)"

definition looking_at :: "ustr \<Rightarrow> ustr \<Rightarrow> nat \<Rightarrow> bool" where
  "looking_at w text pos = (take (length w) (drop pos text) = w)"

fun match_here :: "unicode \<Rightarrow> item list \<Rightarrow> ustr \<Rightarrow> nat \<Rightarrow> nat list option" where
  "match_here U [] text pos = Some []"
| "match_here U (Lit c # r) text pos =
     (if pos < length text \<and> text ! pos = c
      then map_option ((#) (pos + 1)) (match_here U r text (pos + 1)) else None)"
| "match_here U (Cls p # r) text pos =
     (if pos < length text \<and> p (text ! pos)
      then map_option ((#) (pos + 1)) (match_here U r text (pos + 1)) else None)"
| "match_here U (Star p # r) text pos =
     first_down (\<lambda>e. map_option ((#) e) (match_here U r text e)) pos (run_len p text pos)"
| "match_here U (Plus p # r) text pos =
     (if run_len p text pos = 0 then None
      else first_down (\<lambda>e. map_option ((#) e) (match_here U r text e)) (pos + 1)
             (run_len p text pos - 1))"
| "match_here U (Alt ws # r) text pos =
     first_of (\<lambda>w. if looking_at w text pos
                    then map_option ((#) (pos + length w)) (match_here U r text (pos + length w))
                    else None) ws"
| "match_here U (WordB # r) text pos =
     (if word_boundary U text pos then map_option ((#) pos) (match_here U r text pos) else None)"
| "match_here U (Bol # r) text pos =
     (if pos = 0 then map_option ((#) pos) (match_here U r text pos) else None)"
| "match_here U (Eol # r) text pos =
     (if pos = length text \<or> (pos + 1 = length text \<and> text ! pos = 10)
      then map_option ((#) pos) (match_here U r text pos) else None)"

text \<open>\<open>re.match(pattern, s)\<close> as a truth value: a match starting at position 0.\<close>

definition re_match :: "unicode \<Rightarrow> item list \<Rightarrow> ustr \<Rightarrow> bool" where
  "re_match U pat s = (match_here U pat s 0 \<noteq> None)"

section \<open>Scope pruner\<close>

text \<open>
  \<open>cleanup_empty_scopes(lines)\<close>. A line is the dict with keys \<open>leading\<close>, \<open>content\<close> and
  \<open>text\<close>. The opener test is \<open>re.match(r".*\?\s*=\s*\{", c)\<close> on the stripped content, the
  closer test is stripped content equal to a lone closing brace, and a line is visible
  when \<open>text and text.strip()\<close> is truthy.
\<close>

definition not_newline :: "nat \<Rightarrow> bool" where
  "not_newline c = (c \<noteq> 10)"

definition SCOPE_OPEN_RE :: "unicode \<Rightarrow> item list" where
  "SCOPE_OPEN_RE U = [Star not_newline, Lit 63, Star (is_space U), Lit 61, Star (is_space U), Lit 123]"

record line =
  line_leading :: ustr
  line_content :: ustr
  line_text :: ustr

definition is_opener :: "unicode \<Rightarrow> line \<Rightarrow> bool" where
  "is_opener U l = re_match U (SCOPE_OPEN_RE U) (py_strip U (line_content l))"

definition is_closer :: "unicode \<Rightarrow> line \<Rightarrow> bool" where
  "is_closer U l = (py_strip U (line_content l) = S ''}'')"

definition is_visible :: "unicode \<Rightarrow> line \<Rightarrow> bool" where
  "is_visible U l = (line_text l \<noteq> [] \<and> py_strip U (line_text l) \<noteq> [])"

text \<open>The inner \<open>while j < n and lines[j]["content"].strip() != "}"\<close> loop.\<close>

function find_closer :: "unicode \<Rightarrow> line list \<Rightarrow> nat \<Rightarrow> nat" where
  "find_closer U lines j =
     (if j < length lines \<and> \<not> is_closer U (lines ! j) then find_closer U lines (j + 1) else j)"
  by pat_completeness auto
termination
  by (relation "measure (\<lambda>(U, lines, j). length lines - j)") auto

declare find_closer.simps [simp del]

text \<open>The \<open>for k in range(i + 1, j)\<close> loop that sets \<open>has_visible\<close>.\<close>

definition has_visible :: "unicode \<Rightarrow> line list \<Rightarrow> nat \<Rightarrow> nat \<Rightarrow> bool" where
  "has_visible U lines i j = list_ex (\<lambda>k. is_visible U (lines ! k)) [i + 1..<j]"

lemma find_closer_ge: "j \<le> find_closer U lines j"
proof (induction U lines j rule: find_closer.induct)
  case (1 U lines j)
  then show ?case by (subst find_closer.simps) (auto simp: Suc_leD)
qed

text \<open>
  The outer \<open>while i < n\<close> loop, with the index \<open>i\<close> and the set \<open>to_delete\<close> as state;
  \<open>{i..j}\<close> is what \<open>for k in range(i, j + 1): to_delete.add(k)\<close> adds.
\<close>

function scan_scopes :: "unicode \<Rightarrow> line list \<Rightarrow> nat \<Rightarrow> nat set \<Rightarrow> nat set" where
  "scan_scopes U lines i to_delete =
     (if i < length lines then
        (if is_opener U (lines ! i) then
           (let j = find_closer U lines (i + 1) in
            if j < length lines \<and> is_closer U (lines ! j) then
              (if \<not> has_visible U lines i j
               then scan_scopes U lines (j + 1) (to_delete \<union> {i..j})
               else scan_scopes U lines (i + 1) to_delete)
            else scan_scopes U lines (i + 1) to_delete)
         else scan_scopes U lines (i + 1) to_delete)
      else to_delete)"
  by pat_completeness auto
termination
proof (relation "measure (\<lambda>(U, lines, i, d). length lines - i)")
  fix U :: unicode and lines :: "line list" and i :: nat and to_delete :: "nat set" and j
  assume "i < length lines" "j = find_closer U lines (i + 1)" "j < length lines \<and> is_closer U (lines ! j)"
  moreover have "i + 1 \<le> find_closer U lines (i + 1)" by (rule find_closer_ge)
  ultimately show "((U, lines, j + 1, to_delete \<union> {i..j}), (U, lines, i, to_delete))
      \<in> measure (\<lambda>(U, lines, i, d). length lines - i)" by auto
qed auto

declare scan_scopes.simps [simp del]

text \<open>
  The rebuild \<open>[info for idx, info in enumerate(lines) if idx not in to_delete]\<close>, done
  only when \<open>to_delete\<close> is not empty. The source assigns the new list to \<open>lines[:]\<close>; the
  model returns it.
\<close>

definition cleanup_empty_scopes :: "unicode \<Rightarrow> line list \<Rightarrow> line list" where
  "cleanup_empty_scopes U lines =
     (let to_delete = scan_scopes U lines 0 {} in
      if to_delete \<noteq> {} then map snd (filter (\<lambda>(idx, info). idx \<notin> to_delete) (enumerate 0 lines))
      else lines)"

text \<open>A line without indentation, for examples.\<close>

definition mk_line :: "string \<Rightarrow> string \<Rightarrow> line" where
  "mk_line c t = \<lparr>line_leading = [], line_content = S c, line_text = S t\<rparr>"

text \<open>
  \<open>scope_at U lines a b\<close>: line \<open>a\<close> is a conditional opener and \<open>b\<close> is the first closer
  after it. \<open>empty_scope\<close>: moreover no line strictly between them is visible.
\<close>

definition scope_at :: "unicode \<Rightarrow> line list \<Rightarrow> nat \<Rightarrow> nat \<Rightarrow> bool" where
  "scope_at U lines a b =
     (a < b \<and> b < length lines \<and> is_opener U (lines ! a) \<and> is_closer U (lines ! b) \<and>
      (\<forall>k. a < k \<and> k < b \<longrightarrow> \<not> is_closer U (lines ! k)))"

definition empty_scope :: "unicode \<Rightarrow> line list \<Rightarrow> nat \<Rightarrow> nat \<Rightarrow> bool" where
  "empty_scope U lines a b =
     (scope_at U lines a b \<and> (\<forall>k. a < k \<and> k < b \<longrightarrow> \<not> is_visible U (lines ! k)))"

lemma closer_not_opener: "is_closer U l \<Longrightarrow> \<not> is_opener U l"
  by (simp add: is_closer_def is_opener_def re_match_def SCOPE_OPEN_RE_def S_def run_len_def
      not_newline_def is_space_def)

lemma find_closer_spec:
  "j \<le> find_closer U lines j \<and>
   (\<forall>k. j \<le> k \<and> k < find_closer U lines j \<longrightarrow> k < length lines \<and> \<not> is_closer U (lines ! k)) \<and>
   (find_closer U lines j < length lines \<longrightarrow> is_closer U (lines ! find_closer U lines j))"
proof (induction U lines j rule: find_closer.induct)
  case (1 U lines j)
  show ?case
  proof (cases "j < length lines \<and> \<not> is_closer U (lines ! j)")
    case True
    then have eq: "find_closer U lines j = find_closer U lines (j + 1)"
      by (subst find_closer.simps) simp
    from 1[OF True] True show ?thesis unfolding eq
      by (metis Suc_eq_plus1 Suc_leD le_antisym not_less_eq_eq)
  next
    case False
    then have eq: "find_closer U lines j = j" by (subst find_closer.simps) auto
    from False show ?thesis unfolding eq by auto
  qed
qed

lemma has_visible_iff:
  "has_visible U lines i j \<longleftrightarrow> (\<exists>k. i < k \<and> k < j \<and> is_visible U (lines ! k))"
  by (auto simp: has_visible_def list_ex_iff Suc_le_eq)

lemma scope_at_find_closer:
  "scope_at U lines a b \<longleftrightarrow>
     (a < length lines \<and> is_opener U (lines ! a) \<and> b = find_closer U lines (a + 1) \<and> b < length lines)"
proof
  assume s: "scope_at U lines a b"
  let ?j = "find_closer U lines (a + 1)"
  from find_closer_spec[of "a + 1" U lines] have
    ge: "a + 1 \<le> ?j" and nc: "\<And>k. a + 1 \<le> k \<Longrightarrow> k < ?j \<Longrightarrow> \<not> is_closer U (lines ! k)"
    and cl: "?j < length lines \<Longrightarrow> is_closer U (lines ! ?j)" by auto
  from s have b: "a < b" "b < length lines" "is_closer U (lines ! b)"
    and nb: "\<And>k. a < k \<Longrightarrow> k < b \<Longrightarrow> \<not> is_closer U (lines ! k)"
    by (auto simp: scope_at_def)
  have "\<not> b < ?j" using nc[of b] b by auto
  moreover have "\<not> ?j < b" using nb[of ?j] cl ge b by auto
  ultimately have "b = ?j" by simp
  with s show "a < length lines \<and> is_opener U (lines ! a) \<and> b = ?j \<and> b < length lines"
    by (auto simp: scope_at_def)
next
  assume h: "a < length lines \<and> is_opener U (lines ! a) \<and> b = find_closer U lines (a + 1) \<and> b < length lines"
  with find_closer_spec[of "a + 1" U lines] show "scope_at U lines a b"
    by (auto simp: scope_at_def)
qed

lemma scope_at_inner:
  assumes "scope_at U lines i j" "scope_at U lines a b" "i \<le> a" "a \<le> j"
  shows "b = j"
proof -
  from assms have "a \<noteq> j" using closer_not_opener by (auto simp: scope_at_def)
  with assms(4) have aj: "a < j" by simp
  from assms(1) have cj: "is_closer U (lines ! j)"
    and nj: "\<And>k. i < k \<Longrightarrow> k < j \<Longrightarrow> \<not> is_closer U (lines ! k)" by (auto simp: scope_at_def)
  from assms(2) have cb: "is_closer U (lines ! b)" "a < b"
    and nb: "\<And>k. a < k \<Longrightarrow> k < b \<Longrightarrow> \<not> is_closer U (lines ! k)" by (auto simp: scope_at_def)
  have "\<not> j < b" using nb[of j] cj aj by auto
  moreover have "\<not> b < j" using nj[of b] cb assms(3) by auto
  ultimately show ?thesis by simp
qed

definition deleted_from :: "unicode \<Rightarrow> line list \<Rightarrow> nat \<Rightarrow> nat set" where
  "deleted_from U lines i = {k. \<exists>a b. i \<le> a \<and> a \<le> k \<and> k \<le> b \<and> empty_scope U lines a b}"

lemma deleted_from_mono: "i \<le> i' \<Longrightarrow> k \<in> deleted_from U lines i' \<Longrightarrow> k \<in> deleted_from U lines i"
  unfolding deleted_from_def by (blast intro: order_trans)

lemma scan_scopes_eq:
  "scan_scopes U lines i D = D \<union> deleted_from U lines i"
proof (induction U lines i D rule: scan_scopes.induct)
  case (1 U lines i D)
  let ?j = "find_closer U lines (i + 1)"
  show ?case
  proof (cases "i < length lines")
    case False
    then have "deleted_from U lines i = {}"
      by (auto simp: deleted_from_def empty_scope_def scope_at_def)
    with False show ?thesis by (subst scan_scopes.simps) simp
  next
    case True
    show ?thesis
    proof (cases "empty_scope U lines i ?j")
      case es: True
      then have sc: "scope_at U lines i ?j" by (simp add: empty_scope_def)
      then have op: "is_opener U (lines ! i)" and jl: "?j < length lines"
        and cl: "is_closer U (lines ! ?j)" by (auto simp: scope_at_def)
      from es have nv: "\<not> has_visible U lines i ?j"
        by (auto simp: has_visible_iff empty_scope_def)
      have step: "scan_scopes U lines i D = scan_scopes U lines (?j + 1) (D \<union> {i..?j})"
        using True op jl cl nv by (subst scan_scopes.simps) (simp add: Let_def)
      have ih: "scan_scopes U lines (?j + 1) (D \<union> {i..?j}) = D \<union> {i..?j} \<union> deleted_from U lines (?j + 1)"
        using 1(1)[OF True op refl _ nv] jl cl by simp
      have "deleted_from U lines i = {i..?j} \<union> deleted_from U lines (?j + 1)"
      proof (intro set_eqI iffI)
        fix k assume "k \<in> deleted_from U lines i"
        then obtain a b where ab: "i \<le> a" "a \<le> k" "k \<le> b" "empty_scope U lines a b"
          by (auto simp: deleted_from_def)
        show "k \<in> {i..?j} \<union> deleted_from U lines (?j + 1)"
        proof (cases "a \<le> ?j")
          case True
          with ab sc have "b = ?j" using scope_at_inner[of U lines i ?j a b]
            by (simp add: empty_scope_def)
          with ab show ?thesis by simp
        next
          case False
          then have "?j + 1 \<le> a" by simp
          with ab have "k \<in> deleted_from U lines (?j + 1)"
            unfolding deleted_from_def by blast
          then show ?thesis by simp
        qed
      next
        fix k assume "k \<in> {i..?j} \<union> deleted_from U lines (?j + 1)"
        then show "k \<in> deleted_from U lines i"
        proof
          assume "k \<in> {i..?j}"
          with es show ?thesis by (auto simp: deleted_from_def)
        next
          assume "k \<in> deleted_from U lines (?j + 1)"
          moreover have "i \<le> ?j + 1" using find_closer_ge[of "i + 1" U lines] by simp
          ultimately show ?thesis by (rule deleted_from_mono[rotated])
        qed
      qed
      with step ih show ?thesis by auto
    next
      case nes: False
      have step: "scan_scopes U lines i D = scan_scopes U lines (i + 1) D"
      proof (cases "is_opener U (lines ! i) \<and> ?j < length lines")
        case True
        with \<open>i < length lines\<close> have sc: "scope_at U lines i ?j"
          by (simp add: scope_at_find_closer)
        with nes have "has_visible U lines i ?j"
          by (auto simp: has_visible_iff empty_scope_def)
        then show ?thesis using \<open>i < length lines\<close>
          by (subst scan_scopes.simps) (simp add: Let_def)
      next
        case False
        then show ?thesis using \<open>i < length lines\<close>
          by (subst scan_scopes.simps) (auto simp: Let_def)
      qed
      have ih: "scan_scopes U lines (i + 1) D = D \<union> deleted_from U lines (i + 1)"
      proof (cases "is_opener U (lines ! i)")
        case op: True
        show ?thesis
        proof (cases "?j < length lines \<and> is_closer U (lines ! ?j)")
          case True
          with \<open>i < length lines\<close> op have sc: "scope_at U lines i ?j"
            by (simp add: scope_at_find_closer)
          with nes have hv: "\<not> \<not> has_visible U lines i ?j"
            by (auto simp: has_visible_iff empty_scope_def)
          from 1(2)[OF \<open>i < length lines\<close> op refl True hv] show ?thesis .
        next
          case False
          from 1(3)[OF \<open>i < length lines\<close> op refl False] show ?thesis .
        qed
      next
        case False
        from 1(4)[OF \<open>i < length lines\<close> False] show ?thesis .
      qed
      have "deleted_from U lines i = deleted_from U lines (i + 1)"
      proof (intro set_eqI iffI)
        fix k assume "k \<in> deleted_from U lines i"
        then obtain a b where ab: "i \<le> a" "a \<le> k" "k \<le> b" "empty_scope U lines a b"
          by (auto simp: deleted_from_def)
        have "a \<noteq> i"
        proof
          assume "a = i"
          with ab have "scope_at U lines i b" by (simp add: empty_scope_def)
          then have "b = ?j" by (simp add: scope_at_find_closer)
          with ab \<open>a = i\<close> nes show False by simp
        qed
        with ab have "i + 1 \<le> a" by simp
        with ab show "k \<in> deleted_from U lines (i + 1)" unfolding deleted_from_def by blast
      next
        fix k assume "k \<in> deleted_from U lines (i + 1)"
        then show "k \<in> deleted_from U lines i" by (rule deleted_from_mono[rotated]) simp
      qed
      with step ih show ?thesis by simp
    qed
  qed
qed

text \<open>The set of deleted indices is the union of all empty scopes.\<close>

definition to_delete_set :: "unicode \<Rightarrow> line list \<Rightarrow> nat set" where
  "to_delete_set U lines = scan_scopes U lines 0 {}"

lemma to_delete_set_iff:
  "k \<in> to_delete_set U lines \<longleftrightarrow> (\<exists>a b. a \<le> k \<and> k \<le> b \<and> empty_scope U lines a b)"
  by (simp add: to_delete_set_def scan_scopes_eq deleted_from_def)

lemma zip_filter_swap:
  "map snd (filter (\<lambda>(i, x). P i) (zip is xs)) = map fst (filter (\<lambda>p. P (snd p)) (zip xs is))"
  by (induction "is" xs rule: list_induct2') auto

lemma cleanup_empty_scopes_nths:
  "cleanup_empty_scopes U lines = nths lines (- scan_scopes U lines 0 {})"
proof (cases "scan_scopes U lines 0 {} = {}")
  case True
  then show ?thesis by (simp add: cleanup_empty_scopes_def nths_all)
next
  case False
  then show ?thesis
    by (simp add: cleanup_empty_scopes_def Let_def enumerate_eq_zip nths_def zip_filter_swap)
qed

lemma scope_indices:
  assumes "scope_at U lines p q"
  shows "((\<forall>k. p < k \<and> k < q \<longrightarrow> \<not> is_visible U (lines ! k)) \<longrightarrow>
            (\<forall>k. p \<le> k \<and> k \<le> q \<longrightarrow> k \<in> scan_scopes U lines 0 {})) \<and>
         ((\<exists>k. p < k \<and> k < q \<and> is_visible U (lines ! k)) \<longrightarrow>
            p \<notin> scan_scopes U lines 0 {} \<and>
            ((\<forall>k. p < k \<and> k < q \<longrightarrow> \<not> is_opener U (lines ! k)) \<longrightarrow>
               (\<forall>k. p \<le> k \<and> k \<le> q \<longrightarrow> k \<notin> scan_scopes U lines 0 {})))"
proof (intro conjI impI allI)
  fix k
  assume "\<forall>k. p < k \<and> k < q \<longrightarrow> \<not> is_visible U (lines ! k)" and "p \<le> k \<and> k \<le> q"
  with assms have "empty_scope U lines p q" "p \<le> k" "k \<le> q" by (simp_all add: empty_scope_def)
  then show "k \<in> scan_scopes U lines 0 {}"
    using to_delete_set_iff[of k U lines] unfolding to_delete_set_def by blast
next
  assume vis: "\<exists>k. p < k \<and> k < q \<and> is_visible U (lines ! k)"
  have no_cover: "\<not> empty_scope U lines a b" if "a \<le> p" "p \<le> b" for a b
  proof
    assume es: "empty_scope U lines a b"
    then have sab: "scope_at U lines a b" by (simp add: empty_scope_def)
    from scope_at_inner[OF sab assms that] have "q = b" .
    with es vis that show False by (auto simp: empty_scope_def)
  qed
  then show "p \<notin> scan_scopes U lines 0 {}"
    using to_delete_set_iff[of p U lines] unfolding to_delete_set_def by blast
  fix k
  assume nop: "\<forall>k. p < k \<and> k < q \<longrightarrow> \<not> is_opener U (lines ! k)" and kr: "p \<le> k \<and> k \<le> q"
  show "k \<notin> scan_scopes U lines 0 {}"
  proof
    assume "k \<in> scan_scopes U lines 0 {}"
    then obtain a b where ab: "a \<le> k" "k \<le> b" "empty_scope U lines a b"
      using to_delete_set_iff[of k U lines] unfolding to_delete_set_def by blast
    then have sab: "scope_at U lines a b" by (simp add: empty_scope_def)
    show False
    proof (cases "a \<le> p")
      case True
      with no_cover[of a b] ab kr have "b < p" by auto
      with ab kr show False by simp
    next
      case False
      then have pa: "p < a" by simp
      from sab have "is_opener U (lines ! a)" by (simp add: scope_at_def)
      with nop pa have "q \<le> a" by auto
      moreover from assms sab closer_not_opener have "a \<noteq> q" by (auto simp: scope_at_def)
      ultimately show False using ab kr by simp
    qed
  qed
qed

text \<open>
  Claim C2, as amended. The result is the input without the lines of the deleted
  indices. For a conditional opener at \<open>p\<close> whose first closer is at \<open>q\<close>:
  if no line strictly between them is visible (its rendered text is empty or blank),
  the opener, the inner lines and the closer are all deleted; if some inner line is
  visible, the opener is not deleted, and when moreover no inner line is itself a
  conditional opener, none of the lines from \<open>p\<close> to \<open>q\<close> is deleted.
\<close>

theorem scope_all_or_nothing:
  assumes "scope_at U lines p q"
  shows "cleanup_empty_scopes U lines = nths lines (- scan_scopes U lines 0 {}) \<and>
         ((\<forall>k. p < k \<and> k < q \<longrightarrow> \<not> is_visible U (lines ! k)) \<longrightarrow>
            (\<forall>k. p \<le> k \<and> k \<le> q \<longrightarrow> k \<in> scan_scopes U lines 0 {})) \<and>
         ((\<exists>k. p < k \<and> k < q \<and> is_visible U (lines ! k)) \<longrightarrow>
            p \<notin> scan_scopes U lines 0 {} \<and>
            ((\<forall>k. p < k \<and> k < q \<longrightarrow> \<not> is_opener U (lines ! k)) \<longrightarrow>
               (\<forall>k. p \<le> k \<and> k \<le> q \<longrightarrow> k \<notin> scan_scopes U lines 0 {})))"
  using scope_indices[OF assms] cleanup_empty_scopes_nths[of U lines] by simp

text \<open>The facts that evaluate the pruner on a concrete line list.\<close>

lemmas scope_eval = S_def is_opener_def is_closer_def is_visible_def re_match_def
  SCOPE_OPEN_RE_def run_len_def not_newline_def is_space_def py_strip_def mk_line_def
  ascii_only_def has_visible_def Let_def scan_scopes.simps find_closer.simps
  cleanup_empty_scopes_def enumerate_eq_zip

theorem scope_all_or_nothing_witness:
  "cleanup_empty_scopes ascii_only
     [mk_line ''ruler ?= {'' ''ruler :'', mk_line ''a = b'' '''', mk_line ''c = d'' '''',
      mk_line ''e = f'' '''', mk_line ''}'' ''''] = [] \<and>
   0 \<in> scan_scopes ascii_only
     [mk_line ''ruler ?= {'' ''ruler :'', mk_line ''a = b'' '''', mk_line ''c = d'' '''',
      mk_line ''e = f'' '''', mk_line ''}'' ''''] 0 {} \<and>
   4 \<in> scan_scopes ascii_only
     [mk_line ''ruler ?= {'' ''ruler :'', mk_line ''a = b'' '''', mk_line ''c = d'' '''',
      mk_line ''e = f'' '''', mk_line ''}'' ''''] 0 {} \<and>
   cleanup_empty_scopes ascii_only
     [mk_line ''ruler ?= {'' ''ruler :'', mk_line ''a = b'' '''', mk_line ''c = d'' ''c : d'',
      mk_line ''e = f'' '''', mk_line ''}'' ''''] =
     [mk_line ''ruler ?= {'' ''ruler :'', mk_line ''a = b'' '''', mk_line ''c = d'' ''c : d'',
      mk_line ''e = f'' '''', mk_line ''}'' ''''] \<and>
   0 \<notin> scan_scopes ascii_only
     [mk_line ''ruler ?= {'' ''ruler :'', mk_line ''a = b'' '''', mk_line ''c = d'' ''c : d'',
      mk_line ''e = f'' '''', mk_line ''}'' ''''] 0 {} \<and>
   4 \<notin> scan_scopes ascii_only
     [mk_line ''ruler ?= {'' ''ruler :'', mk_line ''a = b'' '''', mk_line ''c = d'' ''c : d'',
      mk_line ''e = f'' '''', mk_line ''}'' ''''] 0 {}"
proof -
  let ?L1 = "[mk_line ''ruler ?= {'' ''ruler :'', mk_line ''a = b'' '''', mk_line ''c = d'' '''',
      mk_line ''e = f'' '''', mk_line ''}'' '''']"
  let ?L2 = "[mk_line ''ruler ?= {'' ''ruler :'', mk_line ''a = b'' '''', mk_line ''c = d'' ''c : d'',
      mk_line ''e = f'' '''', mk_line ''}'' '''']"
  have s1: "scope_at ascii_only ?L1 0 4"
    by (simp add: scope_at_find_closer scope_eval)
  have s2: "scope_at ascii_only ?L2 0 4"
    by (simp add: scope_at_find_closer scope_eval)
  have nv: "\<forall>k. 0 < k \<and> k < 4 \<longrightarrow> \<not> is_visible ascii_only (?L1 ! k)"
  proof (intro allI impI)
    fix k :: nat assume "0 < k \<and> k < 4"
    then consider "k = 1" | "k = 2" | "k = 3" by linarith
    then show "\<not> is_visible ascii_only (?L1 ! k)"
      by cases (simp_all add: scope_eval)
  qed
  from scope_all_or_nothing[OF s1] nv
  have d1: "\<forall>k. 0 \<le> k \<and> k \<le> 4 \<longrightarrow> k \<in> scan_scopes ascii_only ?L1 0 {}" by blast
  have "is_visible ascii_only (?L2 ! 2)" by (simp add: scope_eval)
  then have v: "\<exists>k. 0 < k \<and> k < 4 \<and> is_visible ascii_only (?L2 ! k)"
    by (intro exI[of _ 2]) simp
  have no: "\<forall>k. 0 < k \<and> k < 4 \<longrightarrow> \<not> is_opener ascii_only (?L2 ! k)"
  proof (intro allI impI)
    fix k :: nat assume "0 < k \<and> k < 4"
    then consider "k = 1" | "k = 2" | "k = 3" by linarith
    then show "\<not> is_opener ascii_only (?L2 ! k)"
      by cases (simp_all add: scope_eval)
  qed
  from scope_all_or_nothing[OF s2] v no
  have d2: "\<forall>k. 0 \<le> k \<and> k \<le> 4 \<longrightarrow> k \<notin> scan_scopes ascii_only ?L2 0 {}" by blast
  have c1: "cleanup_empty_scopes ascii_only ?L1 = []" by (simp add: scope_eval)
  have c2: "cleanup_empty_scopes ascii_only ?L2 = ?L2" by (simp add: scope_eval)
  from d1 have "0 \<in> scan_scopes ascii_only ?L1 0 {}" "4 \<in> scan_scopes ascii_only ?L1 0 {}"
    by simp_all
  moreover from d2 have "0 \<notin> scan_scopes ascii_only ?L2 0 {}" "4 \<notin> scan_scopes ascii_only ?L2 0 {}"
    by simp_all
  ultimately show ?thesis using c1 c2 by blast
qed

text \<open>
  The claim as stated fails on nested openers and on blank texts. In the first list the
  opener at 0 has the closer at 2 and a visible inner line, yet lines 1 and 2 are deleted
  as the scope of the opener at 1. In the second the inner line has the non-empty text
  of one space, and the whole scope is deleted.
\<close>

theorem scope_all_or_nothing_counterexample:
  "scope_at ascii_only
     [mk_line ''a ?= {'' ''a :'', mk_line ''b ?= {'' ''b :'', mk_line ''}'' ''''] 0 2 \<and>
   line_text ([mk_line ''a ?= {'' ''a :'', mk_line ''b ?= {'' ''b :'', mk_line ''}'' ''''] ! 1) \<noteq> [] \<and>
   cleanup_empty_scopes ascii_only
     [mk_line ''a ?= {'' ''a :'', mk_line ''b ?= {'' ''b :'', mk_line ''}'' ''''] =
     [mk_line ''a ?= {'' ''a :''] \<and>
   scope_at ascii_only
     [mk_line ''a ?= {'' ''a :'', mk_line ''b'' '' '', mk_line ''}'' ''''] 0 2 \<and>
   line_text ([mk_line ''a ?= {'' ''a :'', mk_line ''b'' '' '', mk_line ''}'' ''''] ! 1) \<noteq> [] \<and>
   cleanup_empty_scopes ascii_only
     [mk_line ''a ?= {'' ''a :'', mk_line ''b'' '' '', mk_line ''}'' ''''] = []"
  by (simp add: scope_at_find_closer scope_eval)




section \<open>Regular expressions: greedy runs and literal prefixes\<close>

text \<open>
  A greedy repetition followed by a literal outside its class cannot give characters
  back: every shorter run ends on a character of the class. So such a pattern matches
  in one way only.
\<close>

lemma first_down_last:
  "(\<forall>k<n. f (pos + k) = None) \<Longrightarrow> first_down f pos n = f (pos + n)"
proof (induction n)
  case 0
  then show ?case by simp
next
  case (Suc n)
  then have "first_down f pos n = f (pos + n)" by simp
  moreover from Suc.prems have "f (pos + n) = None" by simp
  ultimately show ?case by (simp split: option.splits)
qed

lemma first_down_top: "f (pos + n) = Some r \<Longrightarrow> first_down f pos n = Some r"
  by (cases n) auto

lemma run_len_inside:
  "k < run_len p text pos \<Longrightarrow> pos + k < length text \<and> p (text ! (pos + k))"
proof -
  assume k: "k < run_len p text pos"
  let ?d = "drop pos text"
  from k have kl: "k < length (takeWhile p ?d)" by (simp add: run_len_def)
  then have "takeWhile p ?d ! k \<in> set (takeWhile p ?d)" by simp
  then have "p (takeWhile p ?d ! k)" by (rule set_takeWhileD[THEN conjunct2])
  moreover have "takeWhile p ?d ! k = ?d ! k" using kl by (rule takeWhile_nth)
  moreover from kl have "k < length ?d" using length_takeWhile_le[of p ?d] by linarith
  ultimately show ?thesis by simp
qed

lemma run_len_stop:
  "pos + run_len p text pos \<le> length text \<or> length text \<le> pos"
  "pos + run_len p text pos < length text \<Longrightarrow> \<not> p (text ! (pos + run_len p text pos))"
proof -
  let ?d = "drop pos text"
  have le: "run_len p text pos \<le> length ?d"
    unfolding run_len_def by (rule length_takeWhile_le)
  then show "pos + run_len p text pos \<le> length text \<or> length text \<le> pos" by auto
  assume "pos + run_len p text pos < length text"
  then have "run_len p text pos < length ?d" by simp
  then have "\<not> p (?d ! run_len p text pos)"
    unfolding run_len_def by (rule nth_length_takeWhile)
  moreover have "pos \<le> length text" using \<open>pos + run_len p text pos < length text\<close> by simp
  ultimately show "\<not> p (text ! (pos + run_len p text pos))" by simp
qed

lemma star_lit:
  assumes "\<not> p c"
  shows "match_here U (Star p # Lit c # r) text pos =
     (let e = pos + run_len p text pos in
      if e < length text \<and> text ! e = c
      then map_option (\<lambda>es. e # (e + 1) # es) (match_here U r text (e + 1)) else None)"
proof -
  let ?f = "\<lambda>e. map_option ((#) e) (match_here U (Lit c # r) text e)"
  have "\<forall>k<run_len p text pos. ?f (pos + k) = None"
    using run_len_inside[of _ p "text" pos] assms by auto
  then have "first_down ?f pos (run_len p text pos) = ?f (pos + run_len p text pos)"
    by (rule first_down_last)
  then show ?thesis by (simp add: Let_def option.map_comp comp_def)
qed

lemma looking_at_Cons:
  "looking_at (c # w) text pos \<longleftrightarrow> pos < length text \<and> text ! pos = c \<and> looking_at w text (pos + 1)"
proof (cases "pos < length text")
  case True
  then have "drop pos text = text ! pos # drop (Suc pos) text" by (simp add: Cons_nth_drop_Suc)
  then show ?thesis using True by (auto simp: looking_at_def)
next
  case False
  then show ?thesis by (simp add: looking_at_def)
qed

text \<open>The end positions of a run of literal items.\<close>

fun lit_ends :: "nat \<Rightarrow> ustr \<Rightarrow> nat list" where
  "lit_ends pos [] = []"
| "lit_ends pos (c # w) = (pos + 1) # lit_ends (pos + 1) w"

lemma lits_match:
  "match_here U (map Lit w @ r) text pos =
     (if looking_at w text pos
      then map_option (\<lambda>es. lit_ends pos w @ es) (match_here U r text (pos + length w))
      else None)"
proof (induction w arbitrary: pos)
  case Nil
  have "(@) ([] :: nat list) = id" by (rule ext) simp
  then show ?case by (simp add: looking_at_def option.map_id)
next
  case (Cons c w)
  show ?case
    by (simp add: Cons.IH looking_at_Cons[of c w] option.map_comp comp_def)
qed

section \<open>Block openers\<close>

text \<open>
  The pattern \<open>r"%s\s*=\s*\{" % re.escape(keyword)\<close> of \<open>extract_block\<close>; with the keywords
  \<open>OR\<close>, \<open>AND\<close>, \<open>NOT\<close> and \<open>option\<close> it is also the pattern of the logic headers and of the
  option blocks. \<open>re.escape\<close> makes every character of the keyword a literal.
\<close>

definition block_re :: "unicode \<Rightarrow> ustr \<Rightarrow> item list" where
  "block_re U keyword = map Lit keyword @ [Star (is_space U), Lit 61, Star (is_space U), Lit 123]"

text \<open>
  In words: at \<open>pos\<close> the buffer reads the keyword, optional whitespace, an equals sign,
  optional whitespace and an opening brace, the brace being at index \<open>b\<close>.
\<close>

definition opens_block_at :: "unicode \<Rightarrow> ustr \<Rightarrow> ustr \<Rightarrow> nat \<Rightarrow> nat \<Rightarrow> bool" where
  "opens_block_at U keyword text pos b =
     (\<exists>w1 w2 rest. drop pos text = keyword @ w1 @ [61] @ w2 @ [123] @ rest \<and>
        (\<forall>c\<in>set w1. is_space U c) \<and> (\<forall>c\<in>set w2. is_space U c) \<and>
        b = pos + length keyword + length w1 + 1 + length w2)"

lemma not_space_eq [simp]: "\<not> is_space U 61" and not_space_brace [simp]: "\<not> is_space U 123"
  by (simp_all add: is_space_def)

lemma block_re_match:
  "match_here U (block_re U kw) text pos =
     (if looking_at kw text pos then
        (let e1 = pos + length kw + run_len (is_space U) text (pos + length kw) in
         if e1 < length text \<and> text ! e1 = 61 then
           (let e2 = e1 + 1 + run_len (is_space U) text (e1 + 1) in
            if e2 < length text \<and> text ! e2 = 123
            then Some (lit_ends pos kw @ [e1, e1 + 1, e2, e2 + 1]) else None)
         else None)
      else None)"
  by (simp add: block_re_def lits_match star_lit Let_def del: match_here.simps(4))

lemma run_len_append:
  assumes "drop pos text = w @ c # rest" "\<forall>x\<in>set w. p x" "\<not> p c"
  shows "run_len p text pos = length w"
  using assms by (simp add: run_len_def takeWhile_append2)

lemma drop_decomp:
  assumes "drop pos text = xs @ ys"
  shows "drop (pos + length xs) text = ys"
proof -
  have "drop (pos + length xs) text = drop (length xs) (drop pos text)"
    by (simp add: add.commute)
  with assms show ?thesis by simp
qed

lemma nth_of_drop:
  assumes "drop pos text = c # rest"
  shows "pos < length text \<and> text ! pos = c"
proof -
  from assms have "pos < length text" by (metis drop_eq_Nil list.distinct(1) not_le)
  moreover from this assms have "text ! pos = c"
    by (metis Cons_nth_drop_Suc list.inject)
  ultimately show ?thesis by simp
qed

lemma opens_block_match:
  assumes "opens_block_at U kw text pos b"
  shows "\<exists>ends. match_here U (block_re U kw) text pos = Some ends \<and> last ends = b + 1"
proof -
  from assms obtain w1 w2 rest where
    d: "drop pos text = kw @ w1 @ [61] @ w2 @ [123] @ rest"
    and s1: "\<forall>c\<in>set w1. is_space U c" and s2: "\<forall>c\<in>set w2. is_space U c"
    and b: "b = pos + length kw + length w1 + 1 + length w2"
    by (auto simp: opens_block_at_def)
  from d have la: "looking_at kw text pos" by (simp add: looking_at_def)
  from d have d1: "drop (pos + length kw) text = w1 @ 61 # w2 @ [123] @ rest"
    using drop_decomp[of pos "text" kw] by simp
  then have r1: "run_len (is_space U) text (pos + length kw) = length w1"
    using s1 by (intro run_len_append[where c = 61]) auto
  from d1 have d2: "drop (pos + length kw + length w1) text = 61 # w2 @ [123] @ rest"
    using drop_decomp[of "pos + length kw" "text" w1] by simp
  then have e1: "pos + length kw + length w1 < length text \<and> text ! (pos + length kw + length w1) = 61"
    by (rule nth_of_drop)
  from d2 have d3: "drop (pos + length kw + length w1 + 1) text = w2 @ 123 # rest"
    using drop_decomp[of "pos + length kw + length w1" "text" "[61]"] by simp
  then have r2: "run_len (is_space U) text (pos + length kw + length w1 + 1) = length w2"
    using s2 by (intro run_len_append[where c = 123]) auto
  from d3 have "drop (pos + length kw + length w1 + 1 + length w2) text = 123 # rest"
    using drop_decomp[of "pos + length kw + length w1 + 1" "text" w2] by simp
  then have e2: "b < length text \<and> text ! b = 123" unfolding b by (rule nth_of_drop)
  show ?thesis
    using la r1 e1 r2 e2 unfolding b by (simp add: block_re_match Let_def)
qed

lemma match_opens_block:
  assumes "match_here U (block_re U kw) text pos = Some ends"
  shows "opens_block_at U kw text pos (last ends - 1) \<and> 0 < last ends \<and>
         last ends \<le> length text \<and> text ! (last ends - 1) = 123 \<and> pos + length kw + 2 \<le> last ends"
proof -
  let ?sp = "is_space U"
  define e1 where "e1 = pos + length kw + run_len ?sp text (pos + length kw)"
  define e2 where "e2 = e1 + 1 + run_len ?sp text (e1 + 1)"
  from assms have la: "looking_at kw text pos" and c1: "e1 < length text" "text ! e1 = 61"
    and c2: "e2 < length text" "text ! e2 = 123" and en: "ends = lit_ends pos kw @ [e1, e1 + 1, e2, e2 + 1]"
    by (auto simp: block_re_match Let_def e1_def e2_def split: if_splits)
  define w1 where "w1 = takeWhile ?sp (drop (pos + length kw) text)"
  define w2 where "w2 = takeWhile ?sp (drop (e1 + 1) text)"
  have l1: "length w1 = run_len ?sp text (pos + length kw)" by (simp add: w1_def run_len_def)
  have l2: "length w2 = run_len ?sp text (e1 + 1)" by (simp add: w2_def run_len_def)
  have pl: "pos + length kw \<le> length text" using c1 by (simp add: e1_def)
  have a: "drop pos text = kw @ drop (pos + length kw) text"
  proof -
    have t: "take (length kw) (drop pos text) = kw" using la by (simp add: looking_at_def)
    have "drop pos text = take (length kw) (drop pos text) @ drop (length kw) (drop pos text)"
      by (rule append_take_drop_id[symmetric])
    then show ?thesis unfolding t by (simp add: add.commute)
  qed
  have split_run: "drop n text = takeWhile ?sp (drop n text) @ drop (n + run_len ?sp text n) text" for n
  proof -
    have "drop n text = takeWhile ?sp (drop n text) @ dropWhile ?sp (drop n text)"
      by (rule takeWhile_dropWhile_id[symmetric])
    then show ?thesis unfolding dropWhile_eq_drop[of ?sp "drop n text"] run_len_def
      by (simp add: add.commute)
  qed
  have b: "drop (pos + length kw) text = w1 @ drop e1 text"
    using split_run[of "pos + length kw"] by (simp add: w1_def e1_def)
  have c: "drop e1 text = 61 # drop (e1 + 1) text"
    using c1 by (metis Cons_nth_drop_Suc Suc_eq_plus1)
  have d: "drop (e1 + 1) text = w2 @ drop e2 text"
    using split_run[of "e1 + 1"] by (simp add: w2_def e2_def)
  have e: "drop e2 text = 123 # drop (e2 + 1) text"
    using c2 by (metis Cons_nth_drop_Suc Suc_eq_plus1)
  have "drop pos text = kw @ w1 @ [61] @ w2 @ [123] @ drop (e2 + 1) text"
    using a b c d e by simp
  moreover have "\<forall>c\<in>set w1. ?sp c" "\<forall>c\<in>set w2. ?sp c"
    by (auto simp: w1_def w2_def dest: set_takeWhileD)
  moreover have "e2 = pos + length kw + length w1 + 1 + length w2"
    by (simp add: e2_def e1_def l1 l2)
  ultimately have "opens_block_at U kw text pos e2"
    unfolding opens_block_at_def by blast
  moreover from en have "last ends = e2 + 1" by simp
  ultimately show ?thesis using c2 by (simp add: e2_def e1_def)
qed

section \<open>Logical headers\<close>

text \<open>
  \<open>beautify_logic_line(content, text)\<close>. The three return values are the Chinese phrases
  of the source, given by their code points: "any of the following conditions holds:",
  "all of the following conditions hold:" and "the following conditions do not hold:".
\<close>

definition PHRASE_ANY :: ustr where
  "PHRASE_ANY = [28385, 36275, 20197, 19979, 20219, 19968, 26465, 20214, 65306]"

definition PHRASE_ALL :: ustr where
  "PHRASE_ALL = [21516, 26102, 28385, 36275, 20197, 19979, 20840, 37096, 26465, 20214, 65306]"

definition PHRASE_NOT :: ustr where
  "PHRASE_NOT = [19981, 28385, 36275, 20197, 19979, 26465, 20214, 65306]"

definition beautify_logic_line :: "unicode \<Rightarrow> ustr \<Rightarrow> ustr \<Rightarrow> ustr" where
  "beautify_logic_line U content text =
     (let s_content = py_strip U content; s_text = py_strip U text in
      if s_text = [] then text
      else if s_text = S ''{'' \<or> s_text = S ''}'' then text
      else if c_open \<in> set s_content \<and> c_close \<in> set s_content then text
      else if re_match U (block_re U (S ''OR'')) s_content then PHRASE_ANY
      else if re_match U (block_re U (S ''AND'')) s_content then PHRASE_ALL
      else if re_match U (block_re U (S ''NOT'')) s_content then PHRASE_NOT
      else text)"

text \<open>
  The guards of the function in words. \<open>text_kept\<close>: the rendered text is blank or a lone
  brace. \<open>inline_block\<close>: the original content has both an opening and a closing brace.
  \<open>header_of U kw content\<close>: the stripped content begins with the keyword, optional
  whitespace, an equals sign, optional whitespace and an opening brace.
\<close>

definition text_kept :: "unicode \<Rightarrow> ustr \<Rightarrow> bool" where
  "text_kept U text = (py_strip U text = [] \<or> py_strip U text = S ''{'' \<or> py_strip U text = S ''}'')"

definition inline_block :: "ustr \<Rightarrow> bool" where
  "inline_block content = (c_open \<in> set content \<and> c_close \<in> set content)"

definition header_of :: "unicode \<Rightarrow> string \<Rightarrow> ustr \<Rightarrow> bool" where
  "header_of U kw content = (\<exists>b. opens_block_at U (S kw) (py_strip U content) 0 b)"

lemma set_dropWhile_keep: "c \<in> set xs \<Longrightarrow> \<not> P c \<Longrightarrow> c \<in> set (dropWhile P xs)"
  by (induction xs) auto

lemma py_strip_mem:
  assumes "\<not> is_space U c"
  shows "c \<in> set (py_strip U s) \<longleftrightarrow> c \<in> set s"
proof
  assume "c \<in> set (py_strip U s)"
  then show "c \<in> set s"
    unfolding py_strip_def by (metis set_dropWhileD set_rev)
next
  assume "c \<in> set s"
  then have "c \<in> set (rev (dropWhile (is_space U) s))"
    using assms by (simp add: set_dropWhile_keep)
  then show "c \<in> set (py_strip U s)"
    unfolding py_strip_def using assms by (simp add: set_dropWhile_keep)
qed

lemma inline_block_strip:
  "(c_open \<in> set (py_strip U content) \<and> c_close \<in> set (py_strip U content)) \<longleftrightarrow> inline_block content"
  by (simp add: inline_block_def py_strip_mem c_open_def c_close_def is_space_def)

lemma re_match_header: "re_match U (block_re U (S kw)) (py_strip U content) \<longleftrightarrow> header_of U kw content"
proof
  assume "re_match U (block_re U (S kw)) (py_strip U content)"
  then obtain ends where "match_here U (block_re U (S kw)) (py_strip U content) 0 = Some ends"
    by (auto simp: re_match_def)
  from match_opens_block[OF this] show "header_of U kw content"
    unfolding header_of_def by blast
next
  assume "header_of U kw content"
  then obtain b where "opens_block_at U (S kw) (py_strip U content) 0 b"
    by (auto simp: header_of_def)
  from opens_block_match[OF this] show "re_match U (block_re U (S kw)) (py_strip U content)"
    by (auto simp: re_match_def)
qed

lemma header_hd: "header_of U (c # cs) content \<Longrightarrow> hd (py_strip U content) = of_char c"
  by (auto simp: header_of_def opens_block_at_def S_def)

lemma headers_exclusive:
  "\<not> (header_of U ''OR'' content \<and> header_of U ''AND'' content)"
  "\<not> (header_of U ''OR'' content \<and> header_of U ''NOT'' content)"
  "\<not> (header_of U ''AND'' content \<and> header_of U ''NOT'' content)"
proof -
  show "\<not> (header_of U ''OR'' content \<and> header_of U ''AND'' content)"
  proof
    assume "header_of U ''OR'' content \<and> header_of U ''AND'' content"
    then have "hd (py_strip U content) = of_char CHR ''O''" "hd (py_strip U content) = of_char CHR ''A''"
      by (auto dest: header_hd)
    then show False by simp
  qed
  show "\<not> (header_of U ''OR'' content \<and> header_of U ''NOT'' content)"
  proof
    assume "header_of U ''OR'' content \<and> header_of U ''NOT'' content"
    then have "hd (py_strip U content) = of_char CHR ''O''" "hd (py_strip U content) = of_char CHR ''N''"
      by (auto dest: header_hd)
    then show False by simp
  qed
  show "\<not> (header_of U ''AND'' content \<and> header_of U ''NOT'' content)"
  proof
    assume "header_of U ''AND'' content \<and> header_of U ''NOT'' content"
    then have "hd (py_strip U content) = of_char CHR ''A''" "hd (py_strip U content) = of_char CHR ''N''"
      by (auto dest: header_hd)
    then show False by simp
  qed
qed

lemma beautify_cases:
  "beautify_logic_line U content text =
     (if text_kept U text \<or> inline_block content then text
      else if header_of U ''OR'' content then PHRASE_ANY
      else if header_of U ''AND'' content then PHRASE_ALL
      else if header_of U ''NOT'' content then PHRASE_NOT
      else text)"
  by (simp add: beautify_logic_line_def Let_def text_kept_def inline_block_strip re_match_header)

lemma header_or_exact:
  assumes "py_strip U content = S ''OR = {''"
  shows "header_of U ''OR'' content \<and> \<not> inline_block content"
proof -
  have "re_match U (block_re U (S ''OR'')) (S ''OR = {'')"
    by (simp add: re_match_def block_re_match looking_at_def run_len_def is_space_def S_def)
  with assms have "header_of U ''OR'' content" by (simp add: re_match_header[symmetric])
  moreover have "\<not> (c_open \<in> set (S ''OR = {'') \<and> c_close \<in> set (S ''OR = {''))"
    by (simp add: S_def c_close_def)
  with assms have "\<not> inline_block content" by (simp add: inline_block_strip[of U, symmetric])
  ultimately show ?thesis by simp
qed

text \<open>
  The function case by case. A line is returned untouched when its rendered text is
  blank or a lone brace, or when its original content has both braces. Otherwise it
  becomes the fixed phrase of \<open>OR\<close>, \<open>AND\<close> or \<open>NOT\<close> when its stripped original content
  begins with that header, and is untouched when it begins with none of them.
\<close>

lemma beautify_guards:
  "(text_kept U text \<or> inline_block content \<longrightarrow> beautify_logic_line U content text = text) \<and>
   (\<not> text_kept U text \<and> \<not> inline_block content \<longrightarrow>
      (header_of U ''OR'' content \<longrightarrow> beautify_logic_line U content text = PHRASE_ANY) \<and>
      (header_of U ''AND'' content \<longrightarrow> beautify_logic_line U content text = PHRASE_ALL) \<and>
      (header_of U ''NOT'' content \<longrightarrow> beautify_logic_line U content text = PHRASE_NOT) \<and>
      (\<not> header_of U ''OR'' content \<and> \<not> header_of U ''AND'' content \<and> \<not> header_of U ''NOT'' content
         \<longrightarrow> beautify_logic_line U content text = text)) \<and>
   (py_strip U content = S ''OR = {'' \<and> \<not> text_kept U text \<longrightarrow>
      beautify_logic_line U content text = PHRASE_ANY)"
  using headers_exclusive[of U content] header_or_exact[of U content]
  unfolding beautify_cases by auto

text \<open>The facts that evaluate the guards on concrete lines.\<close>

lemmas logic_eval = S_def py_strip_def is_space_def ascii_only_def text_kept_def inline_block_def
  c_open_def c_close_def

section \<open>Block extractor\<close>

text \<open>
  \<open>pattern.search(text, pos)\<close>: the first start position from \<open>pos\<close> up to the end of the
  buffer at which the pattern matches, with the end positions of the items.
\<close>

function re_search :: "unicode \<Rightarrow> item list \<Rightarrow> ustr \<Rightarrow> nat \<Rightarrow> (nat \<times> nat list) option" where
  "re_search U pat text pos =
     (if length text < pos then None
      else (case match_here U pat text pos of
              Some ends \<Rightarrow> Some (pos, ends)
            | None \<Rightarrow> re_search U pat text (pos + 1)))"
  by pat_completeness auto
termination
  by (relation "measure (\<lambda>(U, pat, text, pos). Suc (length text) - pos)") auto

declare re_search.simps [simp del]

text \<open>\<open>m.end()\<close> of a match given as start position and item ends.\<close>

definition match_end :: "nat \<times> nat list \<Rightarrow> nat" where
  "match_end m = (if snd m = [] then fst m else last (snd m))"

text \<open>
  \<open>text.find(c, start)\<close> for a single character, \<open>None\<close> for \<open>-1\<close>; the slice
  \<open>text[a:b]\<close>; and \<open>s.strip(cs)\<close>, which removes leading and trailing characters of \<open>cs\<close>.
\<close>

definition py_find :: "ustr \<Rightarrow> nat \<Rightarrow> nat \<Rightarrow> nat option" where
  "py_find text c start =
     (if c \<in> set (drop start text)
      then Some (start + length (takeWhile (\<lambda>x. x \<noteq> c) (drop start text)))
      else None)"

definition slice :: "ustr \<Rightarrow> nat \<Rightarrow> nat \<Rightarrow> ustr" where
  "slice text a b = take (b - a) (drop a text)"

definition strip_chars :: "ustr \<Rightarrow> ustr \<Rightarrow> ustr" where
  "strip_chars cs s =
     rev (dropWhile (\<lambda>c. c \<in> set cs) (rev (dropWhile (\<lambda>c. c \<in> set cs) s)))"

text \<open>
  \<open>extract_block(text, keyword)\<close>; \<open>None\<close> is the source's \<open>None\<close>. The start of the search
  for the brace is \<open>m.end() - 1\<close>; a match of this pattern is never empty, so the
  subtraction does not go below zero. The result is \<open>inner.strip("\r\n")\<close>.
\<close>

definition extract_block :: "unicode \<Rightarrow> ustr \<Rightarrow> ustr \<Rightarrow> ustr option" where
  "extract_block U text keyword =
     (case re_search U (block_re U keyword) text 0 of
        None \<Rightarrow> None
      | Some m \<Rightarrow>
          (case py_find text 123 (match_end m - 1) of
             None \<Rightarrow> None
           | Some brace_start \<Rightarrow>
               (case find_matching_brace text brace_start of
                  None \<Rightarrow> None
                | Some brace_end \<Rightarrow>
                    Some (strip_chars [13, 10] (slice text (brace_start + 1) brace_end)))))"

lemma re_search_Some:
  "re_search U pat text pos = Some (s, ends) \<Longrightarrow>
     pos \<le> s \<and> s \<le> length text \<and> match_here U pat text s = Some ends \<and>
     (\<forall>p. pos \<le> p \<and> p < s \<longrightarrow> match_here U pat text p = None)"
proof (induction U pat "text" pos rule: re_search.induct)
  case (1 U pat t pos)
  from "1.prems" have le: "\<not> length t < pos"
    by (subst (asm) re_search.simps) (simp split: if_splits)
  show ?case
  proof (cases "match_here U pat t pos")
    case (Some e)
    with "1.prems" le have "s = pos" "ends = e"
      by (subst (asm) re_search.simps; simp)+
    with Some le show ?thesis by auto
  next
    case None
    with "1.prems" le have "re_search U pat t (pos + 1) = Some (s, ends)"
      by (subst (asm) re_search.simps) simp
    from "1.IH"[OF le None this] None show ?thesis
      by (metis Suc_eq_plus1 Suc_leD Suc_leI le_neq_implies_less)
  qed
qed

lemma re_search_None:
  "re_search U pat text pos = None \<Longrightarrow>
     (\<forall>p. pos \<le> p \<and> p \<le> length text \<longrightarrow> match_here U pat text p = None)"
proof (induction U pat "text" pos rule: re_search.induct)
  case (1 U pat t pos)
  show ?case
  proof (cases "length t < pos")
    case True
    then show ?thesis by auto
  next
    case le: False
    with "1.prems" have m: "match_here U pat t pos = None"
      and r: "re_search U pat t (pos + 1) = None"
      by (subst (asm) re_search.simps; simp split: option.splits)+
    from "1.IH"[OF le m r] m show ?thesis
      by (metis Suc_eq_plus1 Suc_leI le_neq_implies_less)
  qed
qed

lemma py_find_here:
  assumes "start < length text" "text ! start = c"
  shows "py_find text c start = Some start"
proof -
  from assms have "drop start text = c # drop (Suc start) text"
    by (metis Cons_nth_drop_Suc)
  then show ?thesis by (simp add: py_find_def)
qed

lemma strip_chars_decomp:
  "\<exists>pre suf. s = pre @ strip_chars cs s @ suf \<and> set pre \<subseteq> set cs \<and> set suf \<subseteq> set cs"
proof -
  let ?P = "\<lambda>c. c \<in> set cs"
  let ?d = "dropWhile ?P s"
  have a: "s = takeWhile ?P s @ ?d" by simp
  have "?d = rev (takeWhile ?P (rev ?d) @ dropWhile ?P (rev ?d))"
    by (simp only: takeWhile_dropWhile_id rev_rev_ident)
  then have b: "?d = strip_chars cs s @ rev (takeWhile ?P (rev ?d))"
    by (simp only: rev_append strip_chars_def)
  have "set (takeWhile ?P s) \<subseteq> set cs" by (auto dest: set_takeWhileD)
  moreover have "set (rev (takeWhile ?P (rev ?d))) \<subseteq> set cs" by (auto dest: set_takeWhileD)
  moreover from a b have "s = takeWhile ?P s @ strip_chars cs s @ rev (takeWhile ?P (rev ?d))"
    by simp
  ultimately show ?thesis by blast
qed

lemma strip_chars_ends:
  assumes "strip_chars cs s \<noteq> []"
  shows "hd (strip_chars cs s) \<notin> set cs \<and> last (strip_chars cs s) \<notin> set cs"
proof -
  let ?P = "\<lambda>c. c \<in> set cs"
  let ?d = "dropWhile ?P s"
  let ?e = "dropWhile ?P (rev ?d)"
  from assms have e: "?e \<noteq> []" by (simp add: strip_chars_def)
  then have "\<not> ?P (hd ?e)" by (rule hd_dropWhile)
  then have l: "last (strip_chars cs s) \<notin> set cs"
    using e by (simp add: strip_chars_def last_rev)
  have d: "?d \<noteq> []"
  proof
    assume "?d = []"
    then have "?e = []" by (simp only: rev.simps(1) dropWhile.simps(1))
    with e show False by blast
  qed
  then have nd: "\<not> ?P (hd ?d)" by (rule hd_dropWhile)
  have "?d = rev (takeWhile ?P (rev ?d) @ ?e)"
    by (simp only: takeWhile_dropWhile_id rev_rev_ident)
  then have "?d = strip_chars cs s @ rev (takeWhile ?P (rev ?d))"
    by (simp only: rev_append strip_chars_def)
  then have "hd ?d = hd (strip_chars cs s)" using assms by (metis hd_append2)
  with nd l show ?thesis by simp
qed

text \<open>
  \<open>first_block_at\<close>: the buffer opens a block of the keyword at \<open>pos\<close>, with the brace at
  \<open>b\<close>, and at no earlier position.
\<close>

definition first_block_at :: "unicode \<Rightarrow> ustr \<Rightarrow> ustr \<Rightarrow> nat \<Rightarrow> nat \<Rightarrow> bool" where
  "first_block_at U keyword text pos b =
     (opens_block_at U keyword text pos b \<and>
      (\<forall>p b'. p < pos \<longrightarrow> \<not> opens_block_at U keyword text p b'))"

lemma block_match_nonempty:
  "match_here U (block_re U kw) text pos = Some ends \<Longrightarrow> ends \<noteq> []"
  by (auto simp: block_re_match Let_def split: if_splits)

lemma opens_block_at_bound: "opens_block_at U kw text pos b \<Longrightarrow> pos < length text"
proof -
  assume "opens_block_at U kw text pos b"
  then have "drop pos text \<noteq> []" by (auto simp: opens_block_at_def)
  then show ?thesis by simp
qed

lemma search_first_block:
  assumes "re_search U (block_re U kw) text 0 = Some (s, ends)"
  shows "first_block_at U kw text s (last ends - 1) \<and> ends \<noteq> [] \<and> 0 < last ends \<and>
         last ends \<le> length text \<and> text ! (last ends - 1) = 123"
proof -
  from re_search_Some[OF assms] have m: "match_here U (block_re U kw) text s = Some ends"
    and before: "\<forall>p. p < s \<longrightarrow> match_here U (block_re U kw) text p = None" by auto
  have "\<not> opens_block_at U kw text p b'" if "p < s" for p b'
  proof
    assume "opens_block_at U kw text p b'"
    from opens_block_match[OF this] before that show False by auto
  qed
  with match_opens_block[OF m] block_match_nonempty[OF m] show ?thesis
    by (simp add: first_block_at_def)
qed

lemma first_block_search:
  assumes "first_block_at U kw text pos b"
  shows "\<exists>ends. re_search U (block_re U kw) text 0 = Some (pos, ends) \<and> last ends = b + 1"
proof -
  from assms have o: "opens_block_at U kw text pos b"
    and first: "\<And>p b'. p < pos \<Longrightarrow> \<not> opens_block_at U kw text p b'"
    by (auto simp: first_block_at_def)
  from opens_block_match[OF o] obtain ends where
    m: "match_here U (block_re U kw) text pos = Some ends" and l: "last ends = b + 1" by auto
  from opens_block_at_bound[OF o] have pl: "pos \<le> length text" by simp
  show ?thesis
  proof (cases "re_search U (block_re U kw) text 0")
    case None
    from re_search_None[OF None] pl m show ?thesis by auto
  next
    case (Some r)
    obtain s ends' where r: "r = (s, ends')" by (cases r)
    from re_search_Some[OF Some[unfolded r]] have
      ms: "match_here U (block_re U kw) text s = Some ends'"
      and before: "\<forall>p. p < s \<longrightarrow> match_here U (block_re U kw) text p = None" by auto
    have "\<not> pos < s" using before m by auto
    moreover have "\<not> s < pos" using first match_opens_block[OF ms] by blast
    ultimately have "s = pos" by simp
    with ms m have "ends' = ends" by simp
    with Some r \<open>s = pos\<close> l show ?thesis by simp
  qed
qed

lemma search_none_iff:
  "re_search U (block_re U kw) text 0 = None \<longleftrightarrow> (\<forall>pos b. \<not> opens_block_at U kw text pos b)"
proof
  assume n: "re_search U (block_re U kw) text 0 = None"
  show "\<forall>pos b. \<not> opens_block_at U kw text pos b"
  proof (intro allI notI)
    fix pos b assume o: "opens_block_at U kw text pos b"
    from opens_block_at_bound[OF o] have "pos \<le> length text" by simp
    with re_search_None[OF n] opens_block_match[OF o] show False by auto
  qed
next
  assume a: "\<forall>pos b. \<not> opens_block_at U kw text pos b"
  show "re_search U (block_re U kw) text 0 = None"
  proof (cases "re_search U (block_re U kw) text 0")
    case None
    then show ?thesis .
  next
    case (Some r)
    obtain s ends where "r = (s, ends)" by (cases r)
    with search_first_block[of U kw "text" s ends] Some a show ?thesis
      by (auto simp: first_block_at_def)
  qed
qed

lemma extract_block_found:
  assumes "re_search U (block_re U kw) text 0 = Some (s, ends)"
  shows "extract_block U text kw =
     (case find_matching_brace text (last ends - 1) of
        None \<Rightarrow> None
      | Some e \<Rightarrow> Some (strip_chars [13, 10] (slice text (last ends) e)))"
proof -
  from search_first_block[OF assms] have ne: "ends \<noteq> []" and pos: "0 < last ends"
    and le: "last ends \<le> length text" and br: "text ! (last ends - 1) = 123" by auto
  from pos le have "last ends - 1 < length text" by simp
  from py_find_here[OF this br] have "py_find text 123 (last ends - 1) = Some (last ends - 1)" .
  moreover from pos have "last ends - 1 + 1 = last ends" by simp
  ultimately show ?thesis using assms ne
    by (simp add: extract_block_def match_end_def del: One_nat_def split: option.splits)
qed

lemma first_block_unique:
  assumes "first_block_at U kw text pos b" "first_block_at U kw text pos' b'"
  shows "pos' = pos \<and> b' = b"
  using first_block_search[OF assms(1)] first_block_search[OF assms(2)] by auto

lemma slice_nth:
  assumes "a \<le> b" "b \<le> length text"
  shows "length (slice text a b) = b - a \<and> (\<forall>i<b - a. slice text a b ! i = text ! (a + i))"
  using assms by (simp add: slice_def)

text \<open>
  Claim C6, as amended. When block extraction succeeds, the result is taken from the
  first place where the keyword opens a block: with \<open>b\<close> the index of that opening brace
  and \<open>e\<close> the index of its matching closing brace (where the depth first returns to
  zero), the characters strictly between them are \<open>text[b+1..e-1]\<close>, and the result is
  that substring with its leading and trailing carriage returns and line feeds removed:
  nothing else is removed, nothing is added, and the result neither starts nor ends
  with one of the two characters.
\<close>

theorem extract_block_inner:
  assumes "extract_block U text keyword = Some inner"
  shows "\<exists>pos b e. first_block_at U keyword text pos b \<and>
           find_matching_brace text b = Some e \<and> first_zero text b e \<and>
           length (slice text (b + 1) e) = e - (b + 1) \<and>
           (\<forall>i<e - (b + 1). slice text (b + 1) e ! i = text ! (b + 1 + i)) \<and>
           inner = strip_chars [13, 10] (slice text (b + 1) e) \<and>
           (\<exists>pre suf. slice text (b + 1) e = pre @ inner @ suf \<and>
              set pre \<subseteq> {13, 10} \<and> set suf \<subseteq> {13, 10}) \<and>
           (inner \<noteq> [] \<longrightarrow> hd inner \<notin> {13, 10} \<and> last inner \<notin> {13, 10})"
proof -
  from assms obtain s ends where rs: "re_search U (block_re U keyword) text 0 = Some (s, ends)"
    by (auto simp: extract_block_def split: option.splits)
  define b where "b = last ends - 1"
  from search_first_block[OF rs] have fb: "first_block_at U keyword text s b"
    and pos: "0 < last ends" and le: "last ends \<le> length text" and br: "text ! b = 123"
    by (auto simp: b_def)
  from pos have b1: "b + 1 = last ends" by (simp add: b_def)
  have e1: "last ends - 1 = b" by (simp add: b_def)
  have e2: "last ends = b + 1" using b1 by simp
  from assms extract_block_found[OF rs, unfolded e1, unfolded e2] obtain e where
    fm: "find_matching_brace text b = Some e"
    and inn: "inner = strip_chars [13, 10] (slice text (b + 1) e)"
    by (auto split: option.splits)
  from pos le have bl: "b < length text" by (simp add: b_def)
  from br have bo: "text ! b = c_open" by (simp add: c_open_def)
  have fz: "first_zero text b e" using bl bo fm by (rule fmb_Some_first_zero)
  then have "b + 1 \<le> e" "e \<le> length text" by (simp_all add: first_zero_def)
  from slice_nth[OF this] have sl: "length (slice text (b + 1) e) = e - (b + 1)"
    "\<forall>i<e - (b + 1). slice text (b + 1) e ! i = text ! (b + 1 + i)" by simp_all
  from strip_chars_decomp[of "slice text (b + 1) e" "[13, 10]"] inn
  have dec: "\<exists>pre suf. slice text (b + 1) e = pre @ inner @ suf \<and>
              set pre \<subseteq> {13, 10} \<and> set suf \<subseteq> {13, 10}" by simp
  from strip_chars_ends[of "[13, 10]" "slice text (b + 1) e"] inn
  have en: "inner \<noteq> [] \<longrightarrow> hd inner \<notin> {13, 10} \<and> last inner \<notin> {13, 10}" by simp
  from fb fm fz sl inn dec en show ?thesis by blast
qed

lemma extract_block_search:
  "(extract_block U text keyword \<noteq> None \<longleftrightarrow>
      (\<exists>pos b. first_block_at U keyword text pos b \<and> find_matching_brace text b \<noteq> None)) \<and>
   ((\<exists>b. opens_block_at U keyword text 0 b) \<longrightarrow>
      (\<exists>s ends. re_search U (block_re U keyword) (pre @ text) 0 = Some (s, ends) \<and>
         s \<le> length pre))"
proof (intro conjI impI iffI)
  assume "extract_block U text keyword \<noteq> None"
  then obtain inner where "extract_block U text keyword = Some inner" by auto
  from extract_block_inner[OF this]
  show "\<exists>pos b. first_block_at U keyword text pos b \<and> find_matching_brace text b \<noteq> None"
    by auto
next
  assume "\<exists>pos b. first_block_at U keyword text pos b \<and> find_matching_brace text b \<noteq> None"
  then obtain pos b e where fb: "first_block_at U keyword text pos b"
    and fm: "find_matching_brace text b = Some e" by auto
  from first_block_search[OF fb] obtain ends where
    rs: "re_search U (block_re U keyword) text 0 = Some (pos, ends)" and l: "last ends = b + 1"
    by auto
  from extract_block_found[OF rs] fm l show "extract_block U text keyword \<noteq> None" by simp
next
  assume "\<exists>b. opens_block_at U keyword text 0 b"
  then obtain b w1 w2 rest where d: "text = keyword @ w1 @ [61] @ w2 @ [123] @ rest"
    and sp: "\<forall>c\<in>set w1. is_space U c" "\<forall>c\<in>set w2. is_space U c"
    and b: "b = length keyword + length w1 + 1 + length w2"
    by (auto simp: opens_block_at_def)
  have "drop (length pre) (pre @ text) = keyword @ w1 @ [61] @ w2 @ [123] @ rest"
    using d by simp
  with sp have "opens_block_at U keyword (pre @ text) (length pre)
      (length pre + length keyword + length w1 + 1 + length w2)"
    unfolding opens_block_at_def by blast
  from opens_block_match[OF this] obtain ends where
    m: "match_here U (block_re U keyword) (pre @ text) (length pre) = Some ends" by auto
  show "\<exists>s ends. re_search U (block_re U keyword) (pre @ text) 0 = Some (s, ends) \<and>
         s \<le> length pre"
  proof (cases "re_search U (block_re U keyword) (pre @ text) 0")
    case None
    from re_search_None[OF None] m show ?thesis by auto
  next
    case (Some r)
    obtain s ends' where r: "r = (s, ends')" by (cases r)
    from re_search_Some[OF Some[unfolded r]] m have "\<not> length pre < s" by auto
    with Some r show ?thesis by auto
  qed
qed

text \<open>The facts that evaluate the extractor on a concrete buffer.\<close>

lemmas block_eval = S_def ascii_only_def is_space_def block_re_match looking_at_def run_len_def
  py_find_def find_matching_brace_def c_open_def c_close_def strip_chars_def slice_def
  match_end_def Let_def

theorem extract_block_inner_witness:
  "extract_block ascii_only (S ''a = {'' @ 10 # S ''x'' @ 13 # 10 # S ''}'') (S ''a'') = Some (S ''x'') \<and>
   first_block_at ascii_only (S ''a'') (S ''a = {'' @ 10 # S ''x'' @ 13 # 10 # S ''}'') 0 4 \<and>
   find_matching_brace (S ''a = {'' @ 10 # S ''x'' @ 13 # 10 # S ''}'') 4 = Some 9 \<and>
   first_zero (S ''a = {'' @ 10 # S ''x'' @ 13 # 10 # S ''}'') 4 9 \<and>
   slice (S ''a = {'' @ 10 # S ''x'' @ 13 # 10 # S ''}'') 5 9 = 10 # S ''x'' @ [13, 10]"
proof -
  let ?T = "S ''a = {'' @ 10 # S ''x'' @ 13 # 10 # S ''}''"
  have ex: "extract_block ascii_only ?T (S ''a'') = Some (S ''x'')"
    by (simp add: extract_block_def re_search.simps block_eval)
  have rs: "re_search ascii_only (block_re ascii_only (S ''a'')) ?T 0 = Some (0, [1, 2, 3, 4, 5])"
    by (simp add: re_search.simps block_eval)
  from search_first_block[OF rs] have fb: "first_block_at ascii_only (S ''a'') ?T 0 4" by simp
  have fm: "find_matching_brace ?T 4 = Some 9" by (simp add: block_eval)
  have sl: "slice ?T 5 9 = 10 # S ''x'' @ [13, 10]" by (simp add: block_eval)
  from extract_block_inner[OF ex] obtain pos b e where
    1: "first_block_at ascii_only (S ''a'') ?T pos b"
    and 2: "find_matching_brace ?T b = Some e" and 3: "first_zero ?T b e" by blast
  from first_block_unique[OF fb 1] have "b = 4" by simp
  with 2 fm have "e = 9" by simp
  with 3 \<open>b = 4\<close> have "first_zero ?T 4 9" by simp
  with ex fb fm sl show ?thesis by blast
qed

text \<open>
  The claim as stated fails: between the braces stand a line feed, \<open>x\<close>, a carriage return
  and a line feed, and the result is \<open>x\<close> alone.
\<close>

theorem extract_block_inner_counterexample:
  "extract_block ascii_only (S ''a = {'' @ 10 # S ''x'' @ 13 # 10 # S ''}'') (S ''a'') = Some (S ''x'') \<and>
   find_matching_brace (S ''a = {'' @ 10 # S ''x'' @ 13 # 10 # S ''}'') 4 = Some 9 \<and>
   slice (S ''a = {'' @ 10 # S ''x'' @ 13 # 10 # S ''}'') 5 9 = [10, 120, 13, 10] \<and>
   extract_block ascii_only (S ''a = {'' @ 10 # S ''x'' @ 13 # 10 # S ''}'') (S ''a'') \<noteq>
     Some (slice (S ''a = {'' @ 10 # S ''x'' @ 13 # 10 # S ''}'') 5 9)"
  by (simp add: extract_block_def re_search.simps block_eval)

section \<open>Event parser\<close>

text \<open>Every item of a match ends at or after the position where the match starts.\<close>

lemma first_down_Some:
  "first_down f pos n = Some r \<Longrightarrow> \<exists>k\<le>n. f (pos + k) = Some r"
proof (induction n)
  case 0
  then show ?case by simp
next
  case (Suc n)
  show ?case
  proof (cases "f (pos + Suc n)")
    case None
    with Suc.prems have "first_down f pos n = Some r" by simp
    from Suc.IH[OF this] show ?thesis by (meson le_Suc_eq)
  next
    case (Some a)
    with Suc.prems have "f (pos + Suc n) = Some r" by simp
    then show ?thesis by blast
  qed
qed

lemma first_of_Some:
  "first_of f ws = Some r \<Longrightarrow> \<exists>w\<in>set ws. f w = Some r"
  by (induction ws) (auto split: option.splits)

lemma match_here_ends_ge:
  "match_here U pat text pos = Some ends \<Longrightarrow> \<forall>e\<in>set ends. pos \<le> e"
proof (induction pat arbitrary: pos ends)
  case Nil
  then show ?case by simp
next
  case (Cons it r)
  have step: "\<forall>e\<in>set ends. pos \<le> e"
    if "map_option ((#) q) (match_here U r text q) = Some ends" "pos \<le> q" for q
  proof -
    from that(1) obtain es where es: "match_here U r text q = Some es" "ends = q # es" by auto
    from Cons.IH[OF es(1)] that(2) es(2) show ?thesis by auto
  qed
  show ?case
  proof (cases it)
    case (Lit c)
    with Cons.prems show ?thesis using step[of "pos + 1"] by (simp split: if_splits)
  next
    case (Cls p)
    with Cons.prems show ?thesis using step[of "pos + 1"] by (simp split: if_splits)
  next
    case (Star p)
    with Cons.prems obtain k where
      "map_option ((#) (pos + k)) (match_here U r text (pos + k)) = Some ends"
      by (auto dest: first_down_Some)
    then show ?thesis using step[of "pos + k"] by simp
  next
    case (Plus p)
    with Cons.prems obtain k where
      "map_option ((#) (pos + 1 + k)) (match_here U r text (pos + 1 + k)) = Some ends"
      by (auto dest!: first_down_Some split: if_splits)
    then show ?thesis using step[of "pos + 1 + k"] by simp
  next
    case (Alt ws)
    with Cons.prems obtain q where
      "map_option ((#) q) (match_here U r text q) = Some ends" "pos \<le> q"
      by (fastforce dest!: first_of_Some split: if_splits)
    then show ?thesis using step[of q] by simp
  next
    case WordB
    with Cons.prems show ?thesis using step[of pos] by (simp split: if_splits)
  next
    case Bol
    with Cons.prems show ?thesis using step[of pos] by (simp split: if_splits)
  next
    case Eol
    with Cons.prems show ?thesis using step[of pos] by (simp split: if_splits)
  qed
qed

lemma match_end_ge:
  assumes "match_here U pat text s = Some ends"
  shows "s \<le> match_end (s, ends)"
proof (cases "ends = []")
  case True
  then show ?thesis by (simp add: match_end_def)
next
  case False
  then have "last ends \<in> set ends" by simp
  with match_here_ends_ge[OF assms] False show ?thesis by (simp add: match_end_def)
qed

text \<open>
  \<open>pattern.finditer(text)\<close>: the matches from left to right, each search starting where
  the previous match ended. The patterns of the source match at least one character;
  after an empty match the model moves one character on, a case that does not arise.
\<close>

function finditer :: "unicode \<Rightarrow> item list \<Rightarrow> ustr \<Rightarrow> nat \<Rightarrow> (nat \<times> nat list) list" where
  "finditer U pat text pos =
     (case re_search U pat text pos of
        None \<Rightarrow> []
      | Some m \<Rightarrow>
          m # finditer U pat text (if match_end m = fst m then fst m + 1 else match_end m))"
  by pat_completeness auto
termination
proof (relation "measure (\<lambda>(U, pat, t, pos). Suc (length t) - pos)")
  fix U pat t pos m
  assume rs: "re_search U pat t pos = Some m"
  obtain s ends where m: "m = (s, ends)" by (cases m)
  from re_search_Some[OF rs[unfolded m]] have a: "pos \<le> s" "s \<le> length t"
    and mh: "match_here U pat t s = Some ends" by auto
  from match_end_ge[OF mh] have "s \<le> match_end (s, ends)" .
  with a show "((U, pat, t, if match_end m = fst m then fst m + 1 else match_end m), U, pat, t, pos)
      \<in> measure (\<lambda>(U, pat, t, pos). Suc (length t) - pos)"
    unfolding m by auto
qed simp

declare finditer.simps [simp del]

text \<open>
  An event is the dict with keys \<open>id\<close>, \<open>num\<close> and \<open>block\<close>. \<open>EVENT_PREFIX\<close> is
  \<open>"flavor_" + COUNTRY_TAG.lower()\<close> with the source's \<open>COUNTRY_TAG = "FRA"\<close>, and the
  pattern is \<open>r"(%s\.\d+)\s*=" % re.escape(EVENT_PREFIX)\<close>.
\<close>

record event =
  ev_id :: ustr
  ev_num :: int
  ev_block :: ustr

definition EVENT_PREFIX :: ustr where
  "EVENT_PREFIX = S ''flavor_fra''"

definition EVENT_RE :: "unicode \<Rightarrow> item list" where
  "EVENT_RE U = map Lit EVENT_PREFIX @ [Lit 46, Plus (is_digit U), Star (is_space U), Lit 61]"

text \<open>
  \<open>s.split(c)\<close> for a one-character separator, \<open>xs[i]\<close> with \<open>None\<close> for an IndexError,
  and \<open>int(s)\<close> on a string of decimal digits. Python's integers are unbounded, but
  \<open>int\<close> raises \<open>ValueError\<close> on a string with more digits than the interpreter's limit
  (leading zeros count), unless the limit is off. The argument of \<open>int\<close> in
  \<open>parse_events\<close> is always a non-empty string of digits (lemma \<open>event_re_match\<close>); any
  other string is modelled as raising. The source catches every exception of the
  conversion to give \<open>num = 0\<close>.
\<close>

fun split_acc :: "nat \<Rightarrow> ustr \<Rightarrow> ustr \<Rightarrow> ustr list" where
  "split_acc c acc [] = [rev acc]"
| "split_acc c acc (x # xs) =
     (if x = c then rev acc # split_acc c [] xs else split_acc c (x # acc) xs)"

definition py_split :: "ustr \<Rightarrow> nat \<Rightarrow> ustr list" where
  "py_split s c = split_acc c [] s"

definition nth_opt :: "'a list \<Rightarrow> nat \<Rightarrow> 'a option" where
  "nth_opt xs i = (if i < length xs then Some (xs ! i) else None)"

definition digits_value :: "unicode \<Rightarrow> ustr \<Rightarrow> nat" where
  "digits_value U ds = foldl (\<lambda>a c. 10 * a + (case digit_val U c of Some d \<Rightarrow> d | None \<Rightarrow> 0)) 0 ds"

definition within_int_limit :: "unicode \<Rightarrow> ustr \<Rightarrow> bool" where
  "within_int_limit U s = (u_max_str_digits U = 0 \<or> length s \<le> u_max_str_digits U)"

definition py_int :: "unicode \<Rightarrow> ustr \<Rightarrow> int option" where
  "py_int U s =
     (if s \<noteq> [] \<and> (\<forall>c\<in>set s. is_digit U c) \<and> within_int_limit U s
      then Some (int (digits_value U s)) else None)"

text \<open>The \<open>try: num = int(event_id.split(".")[1]) except Exception: num = 0\<close> block.\<close>

definition event_num :: "unicode \<Rightarrow> ustr \<Rightarrow> int" where
  "event_num U event_id =
     (case nth_opt (py_split event_id 46) 1 of
        None \<Rightarrow> 0
      | Some suffix \<Rightarrow> (case py_int U suffix of None \<Rightarrow> 0 | Some n \<Rightarrow> n))"

text \<open>
  The body of the loop over the matches: \<open>None\<close> is \<open>continue\<close>. \<open>m.group(1)\<close> runs from the
  start of the match to the end of the digits, the item after the prefix and the dot.
\<close>

definition event_of_match :: "unicode \<Rightarrow> ustr \<Rightarrow> nat \<times> nat list \<Rightarrow> event option" where
  "event_of_match U text m =
     (let event_id = slice text (fst m) (snd m ! (length EVENT_PREFIX + 1)) in
      case py_find text 123 (match_end m) of
        None \<Rightarrow> None
      | Some brace_start \<Rightarrow>
          (case find_matching_brace text brace_start of
             None \<Rightarrow> None
           | Some brace_end \<Rightarrow>
               Some \<lparr>ev_id = event_id, ev_num = event_num U event_id,
                     ev_block = slice text (brace_start + 1) brace_end\<rparr>))"

text \<open>
  \<open>collect_events\<close> is the list \<open>events\<close> before the sort, in the order of the file, and
  \<open>events.sort(key=lambda e: e["num"])\<close> is a stable sort by key.
\<close>

definition collect_events :: "unicode \<Rightarrow> ustr \<Rightarrow> event list" where
  "collect_events U text = List.map_filter (event_of_match U text) (finditer U (EVENT_RE U) text 0)"

definition parse_events :: "unicode \<Rightarrow> ustr \<Rightarrow> event list" where
  "parse_events U text = sort_key ev_num (collect_events U text)"

lemma finditer_matches:
  "m \<in> set (finditer U pat text pos) \<Longrightarrow>
     pos \<le> fst m \<and> match_here U pat text (fst m) = Some (snd m)"
proof (induction U pat "text" pos rule: finditer.induct)
  case (1 U pat t pos)
  show ?case
  proof (cases "re_search U pat t pos")
    case None
    with "1.prems" show ?thesis by (subst (asm) finditer.simps) simp
  next
    case (Some m')
    obtain s ends where m': "m' = (s, ends)" by (cases m')
    from re_search_Some[OF Some[unfolded m']] have a: "pos \<le> s"
      and mh: "match_here U pat t s = Some ends" by auto
    from "1.prems" Some have
      "m = m' \<or> m \<in> set (finditer U pat t (if match_end m' = fst m' then fst m' + 1 else match_end m'))"
      by (subst (asm) finditer.simps) simp
    then show ?thesis
    proof
      assume "m = m'"
      with m' a mh show ?thesis by simp
    next
      assume "m \<in> set (finditer U pat t (if match_end m' = fst m' then fst m' + 1 else match_end m'))"
      from "1.IH"[OF Some this] have
        "(if match_end m' = fst m' then fst m' + 1 else match_end m') \<le> fst m"
        and r: "match_here U pat t (fst m) = Some (snd m)" by auto
      moreover from match_end_ge[OF mh] have "s \<le> match_end m'" by (simp add: m')
      ultimately have "pos \<le> fst m" using a by (auto simp: m' split: if_splits)
      with r show ?thesis by simp
    qed
  qed
qed

lemma take_in_run:
  assumes "n \<le> run_len p text pos"
  shows "\<forall>c\<in>set (take n (drop pos text)). p c"
proof -
  let ?d = "drop pos text"
  have "take n (takeWhile p ?d @ dropWhile p ?d) = take n (takeWhile p ?d)"
    using assms by (simp add: run_len_def del: takeWhile_dropWhile_id)
  then have "take n ?d = take n (takeWhile p ?d)"
    unfolding takeWhile_dropWhile_id .
  then have "set (take n ?d) \<subseteq> set (takeWhile p ?d)" by (simp add: set_take_subset)
  then show ?thesis by (auto dest: set_takeWhileD)
qed

lemma length_lit_ends [simp]: "length (lit_ends pos w) = length w"
  by (induction w arbitrary: pos) auto

lemma event_re_match:
  assumes "match_here U (EVENT_RE U) text s = Some ends"
  shows "\<exists>ds. ds \<noteq> [] \<and> (\<forall>c\<in>set ds. is_digit U c) \<and>
           slice text s (ends ! (length EVENT_PREFIX + 1)) = EVENT_PREFIX @ 46 # ds"
proof -
  let ?P = EVENT_PREFIX
  let ?dg = "is_digit U"
  define p1 where "p1 = s + length ?P + 1"
  from assms obtain es where la: "looking_at ?P text s"
    and es: "match_here U [Lit 46, Plus ?dg, Star (is_space U), Lit 61] text (s + length ?P) = Some es"
    and en: "ends = lit_ends s ?P @ es"
    by (auto simp: EVENT_RE_def lits_match split: if_splits)
  from es obtain es2 where dot: "s + length ?P < length text" "text ! (s + length ?P) = 46"
    and es2: "match_here U [Plus ?dg, Star (is_space U), Lit 61] text p1 = Some es2"
    and e1: "es = p1 # es2"
    by (auto simp: p1_def split: if_splits)
  from es2 have rl: "run_len ?dg text p1 \<noteq> 0"
    and fd: "first_down (\<lambda>e. map_option ((#) e) (match_here U [Star (is_space U), Lit 61] text e))
               (p1 + 1) (run_len ?dg text p1 - 1) = Some es2"
    by (auto split: if_splits)
  from first_down_Some[OF fd] obtain k es3 where k: "k \<le> run_len ?dg text p1 - 1"
    and e2: "es2 = (p1 + 1 + k) # es3" by auto
  have idx: "ends ! (length ?P + 1) = p1 + 1 + k"
    by (simp add: en e1 e2 nth_append)
  have d0: "drop s text = ?P @ drop (s + length ?P) text"
  proof -
    have t: "take (length ?P) (drop s text) = ?P" using la by (simp add: looking_at_def)
    have "drop s text = take (length ?P) (drop s text) @ drop (length ?P) (drop s text)"
      by (rule append_take_drop_id[symmetric])
    then show ?thesis unfolding t by (simp add: add.commute)
  qed
  have d1: "drop (s + length ?P) text = 46 # drop p1 text"
    using dot by (metis Cons_nth_drop_Suc Suc_eq_plus1 p1_def)
  define ds where "ds = take (k + 1) (drop p1 text)"
  have "slice text s (p1 + 1 + k) = take (length ?P + 1 + (k + 1)) (drop s text)"
    by (simp add: slice_def p1_def)
  also have "\<dots> = ?P @ 46 # ds"
    unfolding d0 d1 ds_def by simp
  finally have sl: "slice text s (p1 + 1 + k) = ?P @ 46 # ds" .
  from k rl have kk: "k + 1 \<le> run_len ?dg text p1" by simp
  from take_in_run[OF kk] have dg: "\<forall>c\<in>set ds. ?dg c" by (simp add: ds_def)
  from kk have "k + 1 \<le> length (drop p1 text)"
    using length_takeWhile_le[of ?dg "drop p1 text"] by (simp add: run_len_def)
  then have "ds \<noteq> []" by (auto simp: ds_def)
  with dg sl idx show ?thesis by auto
qed

text \<open>
  Conversely, where the prefix, a dot, digits and an equals sign stand, the pattern
  matches, the digits being the whole run.
\<close>

lemma event_re_at:
  assumes d: "drop s text = EVENT_PREFIX @ 46 # ds @ 61 # rest"
    and ne: "ds \<noteq> []" and dg: "\<forall>c\<in>set ds. is_digit U c"
  shows "match_here U (EVENT_RE U) text s =
           Some (lit_ends s EVENT_PREFIX @
                 [s + 11, s + 11 + length ds, s + 11 + length ds, s + 12 + length ds])"
proof -
  let ?P = EVENT_PREFIX
  define p0 where "p0 = s + length ?P"
  define p1 where "p1 = p0 + 1"
  define e where "e = p1 + length ds"
  have lp: "length ?P = 10" by (simp add: EVENT_PREFIX_def S_def)
  have la: "looking_at ?P text s" by (simp add: looking_at_def d)
  have d10: "drop p0 text = 46 # ds @ 61 # rest"
    unfolding p0_def using drop_decomp[OF d] .
  have d11: "drop p1 text = ds @ 61 # rest"
    unfolding p1_def using drop_decomp[of p0 "text" "[46]" "ds @ 61 # rest"] d10 by simp
  have de: "drop e text = 61 # rest"
    unfolding e_def using drop_decomp[OF d11] .
  have n61: "\<not> is_digit U 61" by (simp add: is_digit_def digit_val_def)
  have s61: "\<not> is_space U 61" by (simp add: is_space_def)
  have rl: "run_len (is_digit U) text p1 = length ds"
    using run_len_append[OF d11 dg n61] .
  have rs: "run_len (is_space U) text e = 0"
    by (simp add: run_len_def de s61)
  have lt10: "p0 < length text \<and> text ! p0 = 46"
    using d10 by (rule nth_of_drop)
  have lte: "e < length text \<and> text ! e = 61"
    using de by (rule nth_of_drop)
  have tail: "match_here U [Star (is_space U), Lit 61] text e = Some [e, e + 1]"
    using lte by (simp add: rs)
  let ?f = "\<lambda>e. map_option ((#) e) (match_here U [Star (is_space U), Lit 61] text e)"
  have top: "p1 + 1 + (length ds - 1) = e" using ne by (simp add: e_def Suc_leI)
  have "?f (p1 + 1 + (length ds - 1)) = Some [e, e, e + 1]"
    unfolding top using tail by simp
  then have fd: "first_down ?f (p1 + 1) (length ds - 1) = Some [e, e, e + 1]"
    by (rule first_down_top)
  have plus: "match_here U [Plus (is_digit U), Star (is_space U), Lit 61] text p1 =
      Some [e, e, e + 1]"
    unfolding match_here.simps(5) rl using fd ne by simp
  have dot: "match_here U [Lit 46, Plus (is_digit U), Star (is_space U), Lit 61] text p0 =
      Some [p1, e, e, e + 1]"
    unfolding match_here.simps(2)[of U 46] p1_def[symmetric] plus using lt10 by simp
  have "match_here U (EVENT_RE U) text s = Some (lit_ends s ?P @ [p1, e, e, e + 1])"
    unfolding EVENT_RE_def lits_match p0_def[symmetric] dot using la by simp
  moreover have "p1 = s + 11" "e = s + 11 + length ds" "e + 1 = s + 12 + length ds"
    by (simp_all add: p1_def p0_def e_def lp)
  ultimately show ?thesis by simp
qed

lemma split_acc_no_sep: "c \<notin> set xs \<Longrightarrow> split_acc c acc xs = [rev acc @ xs]"
  by (induction xs arbitrary: acc) auto

lemma split_acc_sep:
  "c \<notin> set xs \<Longrightarrow> split_acc c acc (xs @ c # ys) = (rev acc @ xs) # split_acc c [] ys"
  by (induction xs arbitrary: acc) auto

lemma not_digit_dot: "\<not> is_digit U 46"
  by (simp add: is_digit_def digit_val_def)

lemma event_num_of_id:
  assumes "ds \<noteq> []" "\<forall>c\<in>set ds. is_digit U c"
  shows "event_num U (EVENT_PREFIX @ 46 # ds) =
           (if within_int_limit U ds then int (digits_value U ds) else 0)"
proof -
  have a: "46 \<notin> set EVENT_PREFIX" by (simp add: EVENT_PREFIX_def S_def)
  have b: "46 \<notin> set ds" using assms(2) not_digit_dot by auto
  have "py_split (EVENT_PREFIX @ 46 # ds) 46 = [EVENT_PREFIX, ds]"
    using a b by (simp add: py_split_def split_acc_sep split_acc_no_sep)
  then show ?thesis using assms by (simp add: event_num_def nth_opt_def py_int_def)
qed

text \<open>The value of a string of digits grows with every digit read.\<close>

lemma foldl_digits_ge:
  "a \<le> foldl (\<lambda>a c. 10 * a + (case digit_val U c of Some d \<Rightarrow> d | None \<Rightarrow> 0)) a ds"
proof (induction ds arbitrary: a)
  case Nil
  show ?case by simp
next
  case (Cons c ds)
  let ?f = "\<lambda>a c. 10 * a + (case digit_val U c of Some d \<Rightarrow> d | None \<Rightarrow> (0::nat))"
  have "a \<le> ?f a c" by simp
  also have "\<dots> \<le> foldl ?f (?f a c) ds" by (rule Cons.IH)
  finally show ?case by simp
qed

lemma collect_events_id:
  assumes "e \<in> set (collect_events U text)"
  shows "\<exists>ds. ds \<noteq> [] \<and> (\<forall>c\<in>set ds. is_digit U c) \<and> ev_id e = EVENT_PREFIX @ 46 # ds \<and>
           ev_num e = (if within_int_limit U ds then int (digits_value U ds) else 0)"
proof -
  from assms obtain m where m: "m \<in> set (finditer U (EVENT_RE U) text 0)"
    and ev: "event_of_match U text m = Some e"
    by (auto simp: collect_events_def map_filter_def)
  from finditer_matches[OF m] have "match_here U (EVENT_RE U) text (fst m) = Some (snd m)" by simp
  from event_re_match[OF this] obtain ds where ds: "ds \<noteq> []" "\<forall>c\<in>set ds. is_digit U c"
    and sl: "slice text (fst m) (snd m ! (length EVENT_PREFIX + 1)) = EVENT_PREFIX @ 46 # ds"
    by auto
  from ev sl have "ev_id e = EVENT_PREFIX @ 46 # ds" "ev_num e = event_num U (EVENT_PREFIX @ 46 # ds)"
    by (auto simp: event_of_match_def Let_def split: option.splits)
  with ds event_num_of_id[OF ds] show ?thesis by auto
qed

lemma digits_value_big: "11 \<le> digits_value U (49 # 49 # ds)"
proof -
  let ?f = "\<lambda>a c. 10 * a + (case digit_val U c of Some d \<Rightarrow> d | None \<Rightarrow> (0::nat))"
  have "digits_value U (49 # 49 # ds) = foldl ?f 11 ds"
    by (simp add: digits_value_def digit_val_def)
  moreover have "11 \<le> foldl ?f 11 ds" by (rule foldl_digits_ge)
  ultimately show ?thesis by simp
qed

text \<open>
  Claim C5. The events returned by \<open>parse_events\<close> are in ascending order of \<open>num\<close>; the
  sort is stable (the events with any given \<open>num\<close> keep the order of the file) and loses
  or adds no event; and every event's id is the prefix, a dot and a non-empty string of
  digits. The event's \<open>num\<close> is the decimal value of these digits when \<open>int\<close> converts
  them, that is when they are no more than the interpreter's limit (4300 digits unless
  configured), and 0 when there are more.
\<close>

theorem parse_events_sorted:
  "sorted (map ev_num (parse_events U text)) \<and>
   (\<forall>k. filter (\<lambda>e. ev_num e = k) (parse_events U text) =
        filter (\<lambda>e. ev_num e = k) (collect_events U text)) \<and>
   set (parse_events U text) = set (collect_events U text) \<and>
   length (parse_events U text) = length (collect_events U text) \<and>
   (\<forall>e\<in>set (parse_events U text).
      \<exists>ds. ds \<noteq> [] \<and> (\<forall>c\<in>set ds. is_digit U c) \<and> ev_id e = EVENT_PREFIX @ 46 # ds \<and>
           ev_num e = (if within_int_limit U ds then int (digits_value U ds) else 0))"
  using collect_events_id[of _ U "text"]
  by (simp add: parse_events_def sort_key_stable)

lemma takeWhile_neq_less: "c \<in> set xs \<Longrightarrow> length (takeWhile (\<lambda>x. x \<noteq> c) xs) < length xs"
  by (induction xs) auto

lemma py_find_Some:
  assumes "py_find text c start = Some b"
  shows "start \<le> b \<and> b < length text \<and> text ! b = c"
proof -
  let ?d = "drop start text"
  let ?n = "length (takeWhile (\<lambda>x. x \<noteq> c) ?d)"
  from assms have mem: "c \<in> set ?d" and b: "b = start + ?n"
    by (auto simp: py_find_def split: if_splits)
  from mem have n: "?n < length ?d" by (rule takeWhile_neq_less)
  then have "\<not> (?d ! ?n \<noteq> c)" by (rule nth_length_takeWhile)
  moreover from n have "start + ?n < length text" by simp
  moreover from this have "?d ! ?n = text ! (start + ?n)" by simp
  ultimately show ?thesis using b by simp
qed

text \<open>The facts that evaluate the event parser on a concrete buffer.\<close>

lemmas event_eval = S_def ascii_only_def is_space_def is_digit_def digit_val_def EVENT_RE_def
  EVENT_PREFIX_def looking_at_def run_len_def py_find_def find_matching_brace_def c_open_def
  c_close_def slice_def match_end_def Let_def finditer.simps re_search.simps event_of_match_def
  event_num_def py_split_def nth_opt_def py_int_def within_int_limit_def digits_value_def
  collect_events_def
  parse_events_def map_filter_def

theorem parse_events_sorted_witness:
  "map ev_id (parse_events ascii_only
     (S ''flavor_fra.10 = { a } flavor_fra.2 = { b } flavor_fra.1 = { c }'')) =
     [S ''flavor_fra.1'', S ''flavor_fra.2'', S ''flavor_fra.10''] \<and>
   map ev_num (parse_events ascii_only
     (S ''flavor_fra.10 = { a } flavor_fra.2 = { b } flavor_fra.1 = { c }'')) = [1, 2, 10] \<and>
   sorted (map ev_num (parse_events ascii_only
     (S ''flavor_fra.10 = { a } flavor_fra.2 = { b } flavor_fra.1 = { c }''))) \<and>
   ev_num (hd (parse_events ascii_only
     (S ''flavor_fra.10 = { a } flavor_fra.2 = { b } flavor_fra.1 = { c }''))) =
     int (digits_value ascii_only (S ''1'')) \<and>
   map ev_block (parse_events ascii_only
     (S ''flavor_fra.2 = {x} flavor_fra.1 = {a} flavor_fra.1 = {b}'')) =
     [S ''a'', S ''b'', S ''x'']"
proof -
  let ?T = "S ''flavor_fra.10 = { a } flavor_fra.2 = { b } flavor_fra.1 = { c }''"
  let ?e = "hd (parse_events ascii_only ?T)"
  have ids: "map ev_id (parse_events ascii_only ?T) =
      [S ''flavor_fra.1'', S ''flavor_fra.2'', S ''flavor_fra.10'']"
    by (simp add: event_eval)
  have nums: "map ev_num (parse_events ascii_only ?T) = [1, 2, 10]"
    by (simp add: event_eval)
  have blocks: "map ev_block (parse_events ascii_only
      (S ''flavor_fra.2 = {x} flavor_fra.1 = {a} flavor_fra.1 = {b}'')) = [S ''a'', S ''b'', S ''x'']"
    by (simp add: event_eval)
  note spec = parse_events_sorted[of ascii_only ?T]
  from spec have srt: "sorted (map ev_num (parse_events ascii_only ?T))" by blast
  from ids have ne: "parse_events ascii_only ?T \<noteq> []" by auto
  then have mem: "?e \<in> set (parse_events ascii_only ?T)" by simp
  from ids ne have id1: "ev_id ?e = S ''flavor_fra.1''" by (simp add: hd_map[symmetric])
  from spec mem obtain ds where ds: "ev_id ?e = EVENT_PREFIX @ 46 # ds"
    "ev_num ?e = (if within_int_limit ascii_only ds then int (digits_value ascii_only ds) else 0)"
    by blast
  from ds(1) id1 have d1: "ds = S ''1''" by (simp add: EVENT_PREFIX_def S_def)
  have "within_int_limit ascii_only (S ''1'')"
    by (simp add: within_int_limit_def ascii_only_def S_def)
  with ds(2) d1 have "ev_num ?e = int (digits_value ascii_only (S ''1''))" by simp
  with ids nums srt blocks show ?thesis by blast
qed

text \<open>
  An event whose suffix has 4301 digits gets \<open>num = 0\<close> under the default limit, and so
  comes before the event with suffix 2, although its suffix is the greater number.
\<close>

theorem parse_events_sorted_counterexample:
  "map ev_id (parse_events ascii_only
     (S ''flavor_fra.2={}flavor_fra.'' @ replicate 4301 49 @ S ''={}'')) =
     [S ''flavor_fra.'' @ replicate 4301 49, S ''flavor_fra.2''] \<and>
   map ev_num (parse_events ascii_only
     (S ''flavor_fra.2={}flavor_fra.'' @ replicate 4301 49 @ S ''={}'')) = [0, 2] \<and>
   digits_value ascii_only (S ''2'') < digits_value ascii_only (replicate 4301 49)"
proof -
  let ?U = ascii_only
  define D :: ustr where "D = replicate 4301 49"
  define T where "T = S ''flavor_fra.2={}flavor_fra.'' @ D @ S ''={}''"
  let ?E = "EVENT_RE ?U"
  let ?e0 = "[1, 2, 3, 4, 5, 6, 7, 8, 9, 10, 11, 12, 12, 13::nat]"
  let ?e1 = "[16, 17, 18, 19, 20, 21, 22, 23, 24, 25, 26, 4327, 4327, 4328::nat]"
  have lenD: "length D = 4301" by (simp add: D_def)
  have setD: "set D = {49}" by (simp add: D_def)
  have neD: "D \<noteq> []" using lenD by auto
  have dgD: "\<forall>c\<in>set D. is_digit ?U c" by (simp add: setD is_digit_def digit_val_def)
  have lenT: "length T = 4330" by (simp add: T_def S_def lenD)
  have m0: "match_here ?U ?E T 0 = Some ?e0"
    using event_re_at[of 0 T "S ''2''" "S ''{}flavor_fra.'' @ D @ S ''={}''" ?U]
    by (simp add: T_def S_def EVENT_PREFIX_def is_digit_def digit_val_def)
  have m13: "match_here ?U ?E T 13 = None"
    by (simp add: T_def S_def EVENT_RE_def EVENT_PREFIX_def)
  have m14: "match_here ?U ?E T 14 = None"
    by (simp add: T_def S_def EVENT_RE_def EVENT_PREFIX_def)
  have m15: "match_here ?U ?E T 15 = Some ?e1"
    using event_re_at[of 15 T D "S ''{}''" ?U, OF _ neD dgD]
    by (simp add: T_def S_def EVENT_PREFIX_def lenD)
  have tl: "drop 4328 T = S ''{}''"
    by (simp add: T_def S_def lenD)
  have nth_tl: "T ! 4328 = 123" "T ! 4329 = 125"
    by (simp_all add: T_def S_def lenD nth_append)
  have m4328: "match_here ?U ?E T 4328 = None"
    by (simp add: EVENT_RE_def EVENT_PREFIX_def S_def nth_tl)
  have m4329: "match_here ?U ?E T 4329 = None"
    by (simp add: EVENT_RE_def EVENT_PREFIX_def S_def nth_tl)
  have m4330: "match_here ?U ?E T 4330 = None"
    by (simp add: EVENT_RE_def EVENT_PREFIX_def S_def lenT)
  have s0: "re_search ?U ?E T 0 = Some (0, ?e0)"
    by (subst re_search.simps) (simp add: m0 lenT)
  have s13: "re_search ?U ?E T 13 = Some (15, ?e1)"
    by (subst re_search.simps, simp add: m13 lenT, subst re_search.simps, simp add: m14 lenT,
        subst re_search.simps, simp add: m15 lenT)
  have s4328: "re_search ?U ?E T 4328 = None"
    by (subst re_search.simps, simp add: m4328 lenT, subst re_search.simps, simp add: m4329 lenT,
        subst re_search.simps, simp add: m4330 lenT, subst re_search.simps, simp add: lenT)
  have f3: "finditer ?U ?E T 4328 = []"
    by (subst finditer.simps) (simp add: s4328)
  have f2: "finditer ?U ?E T 13 = [(15, ?e1)]"
    by (subst finditer.simps) (simp add: s13 match_end_def f3)
  have f1: "finditer ?U ?E T 0 = [(0, ?e0), (15, ?e1)]"
    by (subst finditer.simps) (simp add: s0 match_end_def f2)
  have ev0: "event_of_match ?U T (0, ?e0) =
      Some \<lparr>ev_id = S ''flavor_fra.2'', ev_num = 2, ev_block = []\<rparr>"
    by (simp add: T_def event_eval)
  have id1: "slice T 15 4327 = EVENT_PREFIX @ 46 # D"
    by (simp add: slice_def T_def S_def EVENT_PREFIX_def lenD)
  have lim: "\<not> within_int_limit ?U D"
    by (simp add: within_int_limit_def ascii_only_def lenD)
  have num1: "event_num ?U (EVENT_PREFIX @ 46 # D) = 0"
    using event_num_of_id[OF neD dgD] lim by simp
  have pf: "py_find T 123 4328 = Some 4328"
    by (simp add: py_find_def tl S_def)
  have fm: "find_matching_brace T 4328 = Some 4329"
    by (simp add: find_matching_brace_def tl S_def c_open_def c_close_def)
  have bl: "slice T 4329 4329 = []" by (simp add: slice_def)
  have ev1: "event_of_match ?U T (15, ?e1) =
      Some \<lparr>ev_id = EVENT_PREFIX @ 46 # D, ev_num = 0, ev_block = []\<rparr>"
    by (simp add: event_of_match_def match_end_def EVENT_PREFIX_def[THEN arg_cong, of length] S_def
          id1 pf fm bl num1 Let_def)
  have ce: "collect_events ?U T =
      [\<lparr>ev_id = S ''flavor_fra.2'', ev_num = 2, ev_block = []\<rparr>,
       \<lparr>ev_id = EVENT_PREFIX @ 46 # D, ev_num = 0, ev_block = []\<rparr>]"
    using ev0 ev1 by (simp add: collect_events_def f1 map_filter_def)
  have pe: "parse_events ?U T =
      [\<lparr>ev_id = EVENT_PREFIX @ 46 # D, ev_num = 0, ev_block = []\<rparr>,
       \<lparr>ev_id = S ''flavor_fra.2'', ev_num = 2, ev_block = []\<rparr>]"
    by (simp add: parse_events_def ce)
  have "D = 49 # 49 # replicate 4299 49"
    unfolding D_def by (simp add: numeral_eq_Suc del: replicate_Suc replicate.simps add: replicate.simps(2)[symmetric])
  then have "11 \<le> digits_value ?U D" using digits_value_big[of ?U "replicate 4299 49"] by simp
  moreover have "digits_value ?U (S ''2'') = 2" by (simp add: digits_value_def digit_val_def S_def)
  ultimately have big: "digits_value ?U (S ''2'') < digits_value ?U D" by simp
  have "map ev_id (parse_events ?U T) = [S ''flavor_fra.'' @ D, S ''flavor_fra.2'']"
    by (simp add: pe EVENT_PREFIX_def S_def)
  moreover have "map ev_num (parse_events ?U T) = [0, 2]" by (simp add: pe)
  ultimately show ?thesis using big unfolding T_def D_def by simp
qed

text \<open>
  Claim C8. When the brace of the first place where the keyword opens a block has no
  matching closing brace, \<open>extract_block\<close> returns absence. In \<open>parse_events\<close> an event id
  whose brace is unmatched yields no event, every other match yields an event of the
  result, and every returned event has a matched pair of braces around its block. Both
  functions are total: no buffer makes them raise.
\<close>

theorem unbalanced_braces_absent:
  "(first_block_at U keyword text pos b \<and> find_matching_brace text b = None \<longrightarrow>
      extract_block U text keyword = None) \<and>
   (\<forall>m\<in>set (finditer U (EVENT_RE U) text 0).
      (\<forall>b. py_find text 123 (match_end m) = Some b \<longrightarrow> find_matching_brace text b = None) \<longrightarrow>
      event_of_match U text m = None) \<and>
   (\<forall>m\<in>set (finditer U (EVENT_RE U) text 0).
      \<forall>ev. event_of_match U text m = Some ev \<longrightarrow> ev \<in> set (parse_events U text)) \<and>
   (\<forall>e\<in>set (parse_events U text).
      \<exists>b c. text ! b = 123 \<and> find_matching_brace text b = Some c \<and>
            ev_block e = slice text (b + 1) c)"
proof (intro conjI impI ballI allI)
  assume a: "first_block_at U keyword text pos b \<and> find_matching_brace text b = None"
  then obtain ends where rs: "re_search U (block_re U keyword) text 0 = Some (pos, ends)"
    and l: "last ends = b + 1" using first_block_search by blast
  from extract_block_found[OF rs] a l show "extract_block U text keyword = None" by simp
next
  fix m
  assume "\<forall>b. py_find text 123 (match_end m) = Some b \<longrightarrow> find_matching_brace text b = None"
  then show "event_of_match U text m = None"
    by (auto simp: event_of_match_def Let_def split: option.splits)
next
  fix m ev
  assume "m \<in> set (finditer U (EVENT_RE U) text 0)" "event_of_match U text m = Some ev"
  then show "ev \<in> set (parse_events U text)"
    by (force simp: parse_events_def collect_events_def map_filter_def)
next
  fix e assume "e \<in> set (parse_events U text)"
  then obtain m where ev: "event_of_match U text m = Some e"
    by (auto simp: parse_events_def collect_events_def map_filter_def)
  then obtain b c where f: "py_find text 123 (match_end m) = Some b"
    and fm: "find_matching_brace text b = Some c" and bl: "ev_block e = slice text (b + 1) c"
    by (auto simp: event_of_match_def Let_def split: option.splits)
  from py_find_Some[OF f] fm bl
  show "\<exists>b c. text ! b = 123 \<and> find_matching_brace text b = Some c \<and>
            ev_block e = slice text (b + 1) c" by blast
qed

theorem unbalanced_braces_absent_witness:
  "extract_block ascii_only (S ''trigger = { a = { b }'') (S ''trigger'') = None \<and>
   map ev_id (parse_events ascii_only
     (S ''flavor_fra.1 = { a  flavor_fra.2 = { b }'')) = [S ''flavor_fra.2''] \<and>
   map ev_block (parse_events ascii_only
     (S ''flavor_fra.1 = { a  flavor_fra.2 = { b }'')) = [S '' b '']"
proof -
  let ?T = "S ''trigger = { a = { b }''"
  let ?E = "S ''flavor_fra.1 = { a  flavor_fra.2 = { b }''"
  have rs: "re_search ascii_only (block_re ascii_only (S ''trigger'')) ?T 0 =
      Some (0, [1, 2, 3, 4, 5, 6, 7, 8, 9, 10, 11])"
    by (simp add: re_search.simps block_eval)
  from search_first_block[OF rs] have fb: "first_block_at ascii_only (S ''trigger'') ?T 0 10" by simp
  have fm: "find_matching_brace ?T 10 = None" by (simp add: block_eval)
  have b: "extract_block ascii_only ?T (S ''trigger'') = None"
    by (rule unbalanced_braces_absent[of ascii_only "S ''trigger''" ?T 0 10, THEN conjunct1, THEN mp])
       (simp add: fb fm)
  have fi: "finditer ascii_only (EVENT_RE ascii_only) ?E 0 =
      [(0, [1, 2, 3, 4, 5, 6, 7, 8, 9, 10, 11, 12, 13, 14]),
       (20, [21, 22, 23, 24, 25, 26, 27, 28, 29, 30, 31, 32, 33, 34])]"
    by (simp add: event_eval)
  have m2: "event_of_match ascii_only ?E (20, [21, 22, 23, 24, 25, 26, 27, 28, 29, 30, 31, 32, 33, 34]) =
      Some \<lparr>ev_id = S ''flavor_fra.2'', ev_num = 2, ev_block = S '' b ''\<rparr>"
    by (simp add: event_eval)
  have mem: "(20, [21, 22, 23, 24, 25, 26, 27, 28, 29, 30, 31, 32, 33, 34]) \<in>
      set (finditer ascii_only (EVENT_RE ascii_only) ?E 0)"
    unfolding fi by simp
  note kept = unbalanced_braces_absent[of ascii_only "S ''trigger''" ?E 0 10,
      THEN conjunct2, THEN conjunct2, THEN conjunct1, THEN bspec, OF mem, THEN spec, THEN mp, OF m2]
  have c: "map ev_id (parse_events ascii_only ?E) = [S ''flavor_fra.2'']"
    by (simp add: event_eval)
  have d: "map ev_block (parse_events ascii_only ?E) = [S '' b '']"
    by (simp add: event_eval)
  from kept have e: "parse_events ascii_only ?E \<noteq> []" by auto
  from b c d show ?thesis by blast
qed

section \<open>Token substitution\<close>

text \<open>
  The dictionaries of the source, entry for entry and in the source's order; no key
  occurs twice. The values are Chinese phrases, given by their code points.
\<close>

definition SUBJECT_MAP :: "(ustr \<times> ustr) list" where
  "SUBJECT_MAP =
    [(S ''stability'', [31283, 23450, 24230]),
     (S ''legitimacy'', [27491, 32479, 24615]),
     (S ''cultural_influence'', [25991, 21270, 24433, 21709]),
     (S ''pop_satisfaction'', [20154, 32676, 28385, 24847, 24230]),
     (S ''prestige'', [23041, 26395]),
     (S ''estate_satisfaction'', [38454, 32423, 28385, 24847, 24230]),
     (S ''war_exhaustion'', [21388, 25112, 24230]),
     (S ''government_power'', [27491, 32479, 24615]),
     (S ''liberty_desire'', [29420, 31435, 20542, 21521])]"

definition LEVEL_MAP :: "(ustr \<times> ustr) list" where
  "LEVEL_MAP =
    [(S ''weak'', [36731, 24494]),
     (S ''mild'', [23567, 24133]),
     (S ''severe'', [20005, 37325]),
     (S ''extreme'', [26497, 22823]),
     (S ''ultimate'', [26497, 31471])]"

definition SIGN_MAP :: "(ustr \<times> ustr) list" where
  "SIGN_MAP =
    [(S ''bonus'', [25552, 21319]),
     (S ''penalty'', [38477, 20302]),
     (S ''plus'', [22686, 21152])]"

definition CODE_TOKEN_MAP :: "(ustr \<times> ustr) list" where
  "CODE_TOKEN_MAP =
    [(S ''OR'', [25110]),
     (S ''AND'', [19988]),
     (S ''NOT'', [38750]),
     (S ''if'', [22914, 26524]),
     (S ''else'', [21542, 21017]),
     (S ''yes'', [26159]),
     (S ''no'', [21542]),
     (S ''tag'', [26631, 31614]),
     (S ''value'', [25968, 20540]),
     (S ''count'', [25968, 37327]),
     (S ''min'', [26368, 23567, 20540]),
     (S ''max'', [26368, 22823, 20540]),
     (S ''order_by'', [25490, 24207, 20381, 25454]),
     (S ''scale'', [20493, 29575]),
     (S ''is_situation_active'', [22788, 20110, 23616, 21183]),
     (S ''has_ruler'', [23384, 22312, 32479, 27835, 32773]),
     (S ''has_regent'', [23384, 22312, 25668, 25919]),
     (S ''country_exists'', [23384, 22312, 22269, 23478]),
     (S ''dynasty_exists'', [23384, 22312, 23447, 26063]),
     (S ''dynasty'', [23447, 26063]),
     (S ''owns'', [25317, 26377]),
     (S ''own_entire_province'', [23436, 20840, 25317, 26377, 30465, 20221]),
     (S ''any_owned_location'', [25317, 26377, 20219, 19968, 22320, 22359]),
     (S ''any_owned_rural_location'', [25317, 26377, 20219, 19968, 20065, 26449, 22320, 22359]),
     (S ''every_owned_location'', [25152, 26377, 24050, 25317, 26377, 22320, 22359]),
     (S ''every_owned_rural_location'', [25152, 26377, 24050, 25317, 26377, 20065, 26449, 22320, 22359]),
     (S ''add_country_modifier'', [28155, 21152, 22269, 23478, 20462, 27491]),
     (S ''has_country_modifier'', [25317, 26377, 22269, 23478, 20462, 27491]),
     (S ''has_variable'', [23384, 22312, 21464, 37327]),
     (S ''has_global_variable'', [25317, 26377, 20840, 23616, 21464, 37327]),
     (S ''has_a_parliamentary_system'', [25317, 26377, 35758, 20250, 21046, 24230]),
     (S ''any_active_disaster'', [20219, 19968, 28608, 27963, 28798, 38590]),
     (S ''has_estate_privilege'', [25317, 26377, 38454, 32423, 29305, 26435]),
     (S ''has_estate'', [25317, 26377, 38454, 32423]),
     (S ''has_location_modifier'', [25317, 26377, 30465, 20221, 20462, 27491]),
     (S ''has_building'', [25317, 26377, 24314, 31569]),
     (S ''has_building_with_at_least_one_level'', [25317, 26377, 33267, 23569, 19968, 32423, 24314, 31569]),
     (S ''has_mutual_scripted_relation'', [25317, 26377, 33258, 23450, 20041, 20851, 31995]),
     (S ''has_character_modifier'', [25317, 26377, 35282, 33394, 20462, 27491]),
     (S ''has_trait'', [25317, 26377, 29305, 36136]),
     (S ''has_tribal_government'', [20026, 37096, 33853, 25919, 20307]),
     (S ''has_colonial_charters'', [25317, 26377, 27542, 27665, 23466, 31456]),
     (S ''has_unlocked_global_law_trigger'', [24050, 35299, 38145, 20840, 23616, 27861, 24459]),
     (S ''has_rebel'', [23384, 22312, 21467, 20891]),
     (S ''has_heir'', [25317, 26377, 32487, 25215, 20154]),
     (S ''has_consort'', [25317, 26377, 37197, 20598]),
     (S ''has_policy'', [25317, 26377, 25919, 31574]),
     (S ''has_reform'', [25317, 26377, 25913, 38761]),
     (S ''has_law'', [25317, 26377, 27861, 24459]),
     (S ''exists'', [23384, 22312]),
     (S ''in_union_with'', [32852, 32479]),
     (S ''is_subject_of'', [23447, 20027, 22269, 20026]),
     (S ''is_independent_or_autonomous_subject'', [20026, 29420, 31435, 25110, 33258, 27835, 22269, 23478]),
     (S ''is_allied_with'', [19982, 8230, 32467, 30431]),
     (S ''is_rival_of'', [35270, 20026, 21170, 25932]),
     (S ''is_neighbor_of'', [26159, 37051, 22269]),
     (S ''create_alliance'', [24314, 31435, 21516, 30431]),
     (S ''add_casus_belli'', [28155, 21152, 23459, 25112, 29702, 30001]),
     (S ''add_opinion'', [28155, 21152, 24577, 24230]),
     (S ''add_opinion_mutual_effect'', [30456, 20114, 28155, 21152, 24577, 24230]),
     (S ''reverse_add_opinion'', [21453, 21521, 28155, 21152, 24577, 24230]),
     (S ''add_antagonism'', [28155, 21152, 25932, 24847]),
     (S ''any_neighbor_country'', [20219, 19968, 37051, 22269]),
     (S ''every_neighbor_country'', [25152, 26377, 37051, 22269]),
     (S ''any_country'', [20219, 20309, 22269, 23478]),
     (S ''every_country'', [25152, 26377, 22269, 23478]),
     (S ''every_other_country'', [25152, 26377, 20854, 20182, 22269, 23478]),
     (S ''any_other_country'', [20219, 19968, 20854, 20182, 22269, 23478]),
     (S ''every_known_country'', [25152, 26377, 24050, 30693, 22269, 23478]),
     (S ''every_subject'', [25152, 26377, 38468, 23646, 22269]),
     (S ''any_international_organizations_member_of'', [20219, 19968, 25152, 23646, 22269, 38469, 32452, 32455]),
     (S ''add_country_to_international_organization'', [21152, 20837, 22269, 38469, 32452, 32455]),
     (S ''has_member'', [23384, 22312, 25104, 21592, 22269]),
     (S ''is_ai'', [30001, 32, 65, 73, 32, 25511, 21046]),
     (S ''is_subject'', [26159, 23646, 22269]),
     (S ''great_power_score'', [21015, 24378, 20998]),
     (S ''is_member_of_international_organization'', [26159, 22269, 38469, 32452, 32455, 25104, 21592]),
     (S ''add_trust'', [28155, 21152, 20449, 20219]),
     (S ''add_liberty_desire'', [29420, 31435, 20542, 21521, 21464, 21270]),
     (S ''stability'', [31283, 23450, 24230]),
     (S ''at_war'', [22788, 20110, 25112, 20105]),
     (S ''is_at_war_with'', [19982, 8230, 22788, 20110, 25112, 20105]),
     (S ''is_during_bankruptcy'', [22788, 20110, 30772, 20135, 29366, 24577]),
     (S ''num_loans'', [36151, 27454, 25968, 37327]),
     (S ''gold'', [37329, 38065]),
     (S ''add_gold'', [37329, 38065, 21464, 21270]),
     (S ''change_gold_effect'', [37329, 38065, 21464, 21270, 25928, 26524]),
     (S ''add_inflation'', [36890, 36135, 33192, 32960, 21464, 21270]),
     (S ''government_power'', [25919, 24220, 26435, 21147]),
     (S ''add_government_power'', [25919, 24220, 26435, 21147, 21464, 21270]),
     (S ''research_progress'', [31185, 30740, 36827, 24230]),
     (S ''add_research_progress'', [31185, 30740, 36827, 24230, 21464, 21270]),
     (S ''add_rebel_progress'', [21467, 20081, 36827, 24230, 21464, 21270]),
     (S ''add_army_tradition'', [38470, 20891, 20256, 32479, 21464, 21270]),
     (S ''add_core'', [33719, 24471, 26680, 24515]),
     (S ''add_migration'', [36801, 31227, 21464, 21270]),
     (S ''add_pop_size'', [20154, 21475, 35268, 27169, 21464, 21270]),
     (S ''add_temporary_demand'', [22686, 21152, 20020, 26102, 38656, 27714]),
     (S ''change_prosperity'', [32321, 33635, 24230, 21464, 21270]),
     (S ''change_variable'', [21464, 37327, 21464, 21270]),
     (S ''change_societal_value'', [31038, 20250, 20215, 20540, 35266, 21464, 21270]),
     (S ''change_government_type'', [26356, 25913, 25919, 20307]),
     (S ''change_province_integration'', [30465, 20221, 34701, 20837, 24230, 21464, 21270]),
     (S ''change_integration_level'', [25972, 21512, 31561, 32423, 21464, 21270]),
     (S ''add_stability'', [31283, 23450, 24230, 21464, 21270]),
     (S ''add_legitimacy'', [27491, 32479, 24615, 21464, 21270]),
     (S ''add_estate_satisfaction'', [38454, 32423, 28385, 24847, 24230, 21464, 21270]),
     (S ''add_pop_satisfaction'', [20154, 32676, 28385, 24847, 24230, 21464, 21270]),
     (S ''add_prestige'', [23041, 26395, 21464, 21270]),
     (S ''add_war_exhaustion'', [21388, 25112, 24230, 21464, 21270]),
     (S ''in_civil_war'', [22788, 20110, 20869, 25112]),
     (S ''construct_building'', [20462, 24314, 24314, 31569]),
     (S ''building_type'', [24314, 31569, 31867, 22411]),
     (S ''destroy_building'', [25703, 27585, 24314, 31569]),
     (S ''in_siege'', [22312, 22260, 25915, 20013]),
     (S ''add_adm'', [22686, 21152, 34892, 25919]),
     (S ''add_dip'', [22686, 21152, 22806, 20132]),
     (S ''add_mil'', [22686, 21152, 20891, 20107]),
     (S ''create_character'', [21019, 24314, 35282, 33394]),
     (S ''create_mercenary'', [21019, 24314, 38599, 20323, 20853, 22242]),
     (S ''create_rebel'', [21019, 24314, 21467, 20891]),
     (S ''create_named_dynasty'', [21019, 24314, 21629, 21517, 23447, 26063]),
     (S ''create_country_from_location'', [20174, 22320, 28857, 21019, 24314, 22269, 23478]),
     (S ''create_location_country_from_province'', [20174, 30465, 20221, 21019, 24314, 22320, 28857, 22269, 23478]),
     (S ''first_name'', [21517]),
     (S ''last_name'', [22995]),
     (S ''adm'', [34892, 25919]),
     (S ''dip'', [22806, 20132]),
     (S ''mil'', [20891, 20107]),
     (S ''birth_date'', [20986, 29983, 26085, 26399]),
     (S ''birth_location'', [20986, 36523, 22320, 28857]),
     (S ''artist_skill'', [33402, 26415, 23478, 33021, 21147]),
     (S ''artist'', [33402, 26415, 23478, 31867, 22411]),
     (S ''estate'', [38454, 32423]),
     (S ''any_child'', [20219, 19968, 23401, 23376]),
     (S ''random_child'', [38543, 26426, 23401, 23376]),
     (S ''any_cardinal_in_country'', [20219, 19968, 22659, 20869, 26530, 26426, 20027, 25945]),
     (S ''is_sibling_of'', [26159, 20804, 24351, 22992, 22969]),
     (S ''is_child_of'', [26159, 8230, 30340, 23376, 22899]),
     (S ''is_alive'', [23384, 27963]),
     (S ''is_female'', [22899, 24615]),
     (S ''is_male'', [30007, 24615]),
     (S ''is_adult'', [25104, 24180, 20154]),
     (S ''age_in_years'', [24180, 40836]),
     (S ''is_ruler'', [26159, 32479, 27835, 32773]),
     (S ''is_heir'', [26159, 32487, 25215, 20154]),
     (S ''is_courtier'', [26159, 24311, 33251]),
     (S ''heir'', [32487, 25215, 20154]),
     (S ''owner'', [25152, 26377, 32773]),
     (S ''father'', [29238, 20146]),
     (S ''mother'', [27597, 20146]),
     (S ''add_trait'', [28155, 21152, 29305, 36136]),
     (S ''kill_character_silently'', [24708, 28982, 26432, 27515, 35282, 33394]),
     (S ''banish_character'', [25918, 36880, 35282, 33394]),
     (S ''move_country'', [36801, 24448, 22269, 23478]),
     (S ''set_new_ruler'', [35774, 32622, 26032, 32479, 27835, 32773]),
     (S ''set_regent'', [35774, 20026, 25668, 25919]),
     (S ''set_nickname'', [35774, 32622, 32496, 21495]),
     (S ''character'', [35282, 33394]),
     (S ''target_character'', [30446, 26631, 35282, 33394]),
     (S ''add_character_modifier'', [28155, 21152, 35282, 33394, 20462, 27491]),
     (S ''create_in_limbo'', [28779, 26143, 20154]),
     (S ''religion'', [23447, 25945]),
     (S ''culture'', [25991, 21270]),
     (S ''religion_percentage'', [23447, 25945, 20154, 21475, 27604, 20363]),
     (S ''religion_percentage_in_country'', [22269, 23478, 23447, 25945, 30334, 20998, 27604]),
     (S ''add_cultural_influence'', [25991, 21270, 24433, 21709, 21464, 21270]),
     (S ''add_religious_influence'', [23447, 25945, 24433, 21709, 21147, 21464, 21270]),
     (S ''religious_influence'', [23447, 25945, 24433, 21709, 21147]),
     (S ''change_pop_allegiance'', [20154, 32676, 25928, 24544, 21464, 21270]),
     (S ''create_art'', [21019, 24314, 33402, 26415, 21697]),
     (S ''quality'', [21697, 36136]),
     (S ''has_embraced_institution'', [24050, 25509, 32435, 24605, 28526]),
     (S ''is_religion_enabled'', [23447, 25945, 24050, 21551, 29992]),
     (S ''change_character_religion'', [25913, 21464, 35282, 33394, 23447, 25945]),
     (S ''change_character_culture'', [25913, 21464, 35282, 33394, 25991, 21270]),
     (S ''every_pop'', [25152, 26377, 20154, 32676]),
     (S ''has_advance'', [25317, 26377, 38761, 26032]),
     (S ''province_definition'', [30465, 20221]),
     (S ''region'', [22823, 21306]),
     (S ''area'', [21306, 22495]),
     (S ''continent'', [27954]),
     (S ''location'', [22320, 28857]),
     (S ''capital'', [39318, 37117]),
     (S ''is_capital'', [20026, 39318, 37117]),
     (S ''is_coastal'', [20026, 27839, 28023]),
     (S ''is_core_of'', [20026, 26680, 24515, 30465, 20221]),
     (S ''is_city'', [20026, 22478, 24066]),
     (S ''has_discovered'', [24050, 21457, 29616]),
     (S ''is_discovered_by'', [34987, 8230, 21457, 29616]),
     (S ''is_huron_country'', [20026, 20241, 20262, 22269, 23478]),
     (S ''is_iroquois_country'', [20026, 26131, 27931, 39745, 22269, 23478]),
     (S ''any_location_in_region'', [21306, 22495, 20869, 20219, 19968, 22320, 28857]),
     (S ''any_location_in_area'', [22320, 21306, 20869, 20219, 19968, 22320, 28857]),
     (S ''any_location_in_province'', [30465, 20869, 20219, 19968, 22320, 28857]),
     (S ''any_exploration_from_country'', [20219, 19968, 26412, 22269, 25506, 38505]),
     (S ''random_location_in_area'', [21306, 22495, 20869, 38543, 26426, 22320, 28857]),
     (S ''random_location_in_region'', [22823, 21306, 20869, 38543, 26426, 22320, 28857]),
     (S ''every_location_in_area'', [21306, 22495, 20869, 25152, 26377, 22320, 28857]),
     (S ''every_location_in_province'', [30465, 20869, 25152, 26377, 22320, 28857]),
     (S ''work_of_art_exists'', [23384, 22312, 33402, 26415, 21697]),
     (S ''any_work_of_art_in_location'', [22320, 28857, 20869, 20219, 19968, 33402, 26415, 21697]),
     (S ''every_work_of_art_in_location'', [22320, 28857, 20869, 25152, 26377, 33402, 26415, 21697]),
     (S ''ordered_owned_location'', [25490, 24207, 21518, 30340, 24050, 25317, 26377, 22320, 28857]),
     (S ''ordered_country'', [25490, 24207, 21518, 30340, 22269, 23478]),
     (S ''market'', [24066, 22330]),
     (S ''every_province'', [20219, 20309, 30465, 20221]),
     (S ''province'', [30465]),
     (S ''historical_option'', [21382, 21490, 36873, 39033]),
     (S ''root'', [26412, 22269]),
     (S ''this'', [35813, 23545, 35937]),
     (S ''ruler'', [32479, 27835, 32773]),
     (S ''regent'', [25668, 25919]),
     (S ''ruler_or_regent'', [32479, 27835, 32773, 25110, 25668, 25919]),
     (S ''set_variable'', [35774, 32622, 21464, 37327]),
     (S ''set_global_variable'', [35774, 32622, 20840, 23616, 21464, 37327]),
     (S ''remove_variable'', [31227, 38500, 21464, 37327]),
     (S ''target'', [30446, 26631]),
     (S ''type'', [31867, 22411]),
     (S ''limit'', [38480, 21046, 33539, 22260]),
     (S ''modifier'', [20462, 27491]),
     (S ''group'', [32452]),
     (S ''years'', [24180, 38480]),
     (S ''months'', [26376, 25968]),
     (S ''mode'', [27169, 24335]),
     (S ''add'', [28155, 21152]),
     (S ''ai_chance'', [65, 73, 20542, 21521]),
     (S ''factor'', [24378, 24230]),
     (S ''hidden_effect'', [38544, 34255, 25928, 26524]),
     (S ''base'', [22522, 30784]),
     (S ''disaster_type'', [28798, 38590, 31867, 22411]),
     (S ''text'', [25991, 26412]),
     (S ''random_list'', [38543, 26426, 21015, 34920]),
     (S ''trigger_if'', [26465, 20214, 35302, 21457]),
     (S ''trigger_else'', [21542, 21017, 35302, 21457]),
     (S ''trigger_event_silently'', [38745, 40664, 35302, 21457, 20107, 20214]),
     (S ''trigger_event_non_silently'', [35302, 21457, 20107, 20214]),
     (S ''show_as_tooltip'', [26174, 31034, 20026, 25552, 31034]),
     (S ''remove_reform'', [31227, 38500, 25913, 38761]),
     (S ''remove_relation'', [31227, 38500, 20851, 31995]),
     (S ''unlock_estate_privilege_effect'', [35299, 38145, 38454, 32423, 29305, 26435]),
     (S ''unlock_government_reform_effect'', [35299, 38145, 25919, 24220, 25913, 38761]),
     (S ''unlock_law_effect'', [35299, 38145, 27861, 24459]),
     (S ''unlock_policy_effect'', [35299, 38145, 25919, 31574]),
     (S ''add_policy'', [28155, 21152, 25919, 31574]),
     (S ''save_scope_as'', [20445, 23384, 20316, 29992, 22495]),
     (S ''amount'', [25968, 37327]),
     (S ''scope'', [20316, 29992, 22495]),
     (S ''percent'', [30334, 20998, 27604]),
     (S ''controller'', [25511, 21046, 32773]),
     (S ''societal_value_move_to_right'', [21521, 21491, 20559, 31227]),
     (S ''societal_value_move_to_left'', [21521, 24038, 20559, 31227])]"

text \<open>\<open>d.get(k, default)\<close>.\<close>

definition dict_get :: "(ustr \<times> ustr) list \<Rightarrow> ustr \<Rightarrow> ustr \<Rightarrow> ustr" where
  "dict_get d k dflt = (case map_of d k of Some v \<Rightarrow> v | None \<Rightarrow> dflt)"

text \<open>
  \<open>TOKEN_RE = r"\b[A-Za-z_][A-Za-z0-9_]*\b"\<close> and \<open>SUBJECT_LEVEL_SIGN_RE =
  r"^([a-zA-Z_]+)_(weak|mild|severe|extreme|ultimate)_(bonus|penalty|plus)$"\<close>.
\<close>

definition is_ident_start :: "nat \<Rightarrow> bool" where
  "is_ident_start c = ((65 \<le> c \<and> c \<le> 90) \<or> (97 \<le> c \<and> c \<le> 122) \<or> c = 95)"

definition TOKEN_RE :: "item list" where
  "TOKEN_RE = [WordB, Cls is_ident_start, Star is_ascii_word, WordB]"

definition LEVEL_WORDS :: "ustr list" where
  "LEVEL_WORDS = [S ''weak'', S ''mild'', S ''severe'', S ''extreme'', S ''ultimate'']"

definition SIGN_WORDS :: "ustr list" where
  "SIGN_WORDS = [S ''bonus'', S ''penalty'', S ''plus'']"

definition SUBJECT_LEVEL_SIGN_RE :: "item list" where
  "SUBJECT_LEVEL_SIGN_RE =
     [Bol, Plus is_ident_start, Lit 95, Alt LEVEL_WORDS, Lit 95, Alt SIGN_WORDS, Eol]"

text \<open>
  The inner function \<open>repl\<close> of \<open>translate_code_tokens\<close>, applied to \<open>m.group(0)\<close>. The
  three groups of the composite pattern lie between the ends of its items.
\<close>

definition token_repl :: "unicode \<Rightarrow> ustr \<Rightarrow> ustr" where
  "token_repl U token =
     (case match_here U SUBJECT_LEVEL_SIGN_RE token 0 of
        Some ends \<Rightarrow>
          (let subject_en = slice token (ends ! 0) (ends ! 1);
               level_en = slice token (ends ! 2) (ends ! 3);
               sign_en = slice token (ends ! 4) (ends ! 5)
           in dict_get SUBJECT_MAP subject_en subject_en @
              dict_get LEVEL_MAP level_en level_en @
              dict_get SIGN_MAP sign_en sign_en)
      | None \<Rightarrow> dict_get CODE_TOKEN_MAP token token)"

text \<open>
  \<open>pattern.sub(repl, text)\<close>: the text between the matches is copied and every match is
  replaced. After an empty match the character at that position is copied and the scan
  moves on; the token pattern never matches the empty string.
\<close>

function re_sub :: "unicode \<Rightarrow> item list \<Rightarrow> (ustr \<Rightarrow> ustr) \<Rightarrow> ustr \<Rightarrow> nat \<Rightarrow> ustr" where
  "re_sub U pat repl text pos =
     (case re_search U pat text pos of
        None \<Rightarrow> drop pos text
      | Some m \<Rightarrow>
          slice text pos (fst m) @ repl (slice text (fst m) (match_end m)) @
          (if match_end m = fst m
           then (if fst m < length text
                 then text ! fst m # re_sub U pat repl text (fst m + 1) else [])
           else re_sub U pat repl text (match_end m)))"
  by pat_completeness auto
termination
proof (relation "measure (\<lambda>(U, pat, repl, t, pos). Suc (length t) - pos)")
  fix U pat and repl :: "ustr \<Rightarrow> ustr" and t pos m
  assume rs: "re_search U pat t pos = Some m"
  obtain s ends where m: "m = (s, ends)" by (cases m)
  from re_search_Some[OF rs[unfolded m]] have a: "pos \<le> s" "s \<le> length t"
    and mh: "match_here U pat t s = Some ends" by auto
  from match_end_ge[OF mh] have ge: "s \<le> match_end (s, ends)" .
  {
    assume "match_end m = fst m" "fst m < length t"
    with a show "((U, pat, repl, t, fst m + 1), U, pat, repl, t, pos)
        \<in> measure (\<lambda>(U, pat, repl, t, pos). Suc (length t) - pos)"
      unfolding m by auto
  }
  {
    assume "match_end m \<noteq> fst m"
    with a ge show "((U, pat, repl, t, match_end m), U, pat, repl, t, pos)
        \<in> measure (\<lambda>(U, pat, repl, t, pos). Suc (length t) - pos)"
      unfolding m by auto
  }
qed simp

declare re_sub.simps [simp del]

definition translate_code_tokens :: "unicode \<Rightarrow> ustr \<Rightarrow> ustr" where
  "translate_code_tokens U line = re_sub U TOKEN_RE (token_repl U) line 0"

text \<open>
  A standalone identifier: a letter or underscore followed by letters, digits and
  underscores.
\<close>

definition is_identifier :: "ustr \<Rightarrow> bool" where
  "is_identifier t = (t \<noteq> [] \<and> is_ident_start (hd t) \<and> (\<forall>c\<in>set t. is_ascii_word c))"

lemma ascii_word_is_word: "is_ascii_word c \<Longrightarrow> is_word U c"
  by (auto simp: is_word_def is_ascii_word_def)

lemma run_len_all:
  assumes "\<forall>c\<in>set (drop pos text). p c"
  shows "run_len p text pos = length text - pos"
proof -
  from assms have "takeWhile p (drop pos text) = drop pos text"
    by (simp add: takeWhile_eq_all_conv)
  then show ?thesis by (simp only: run_len_def length_drop)
qed

lemma token_match_identifier:
  assumes "is_identifier t"
  shows "match_here U TOKEN_RE t 0 = Some [0, 1, length t, length t]"
proof -
  from assms have ne: "t \<noteq> []" and st: "is_ident_start (hd t)"
    and all: "\<forall>c\<in>set t. is_ascii_word c" by (auto simp: is_identifier_def)
  from ne have len: "0 < length t" by simp
  from ne have hd: "hd t = t ! 0" by (simp add: hd_conv_nth)
  have w0: "word_at U t 0"
    using len all ne by (simp add: word_at_def ascii_word_is_word)
  have b0: "word_boundary U t 0" using w0 by (simp add: word_boundary_def)
  have wl: "word_at U t (length t - 1)"
    using len all by (simp add: word_at_def ascii_word_is_word)
  have bl: "word_boundary U t (length t)"
    using wl len by (simp add: word_boundary_def word_at_def)
  have "\<forall>c\<in>set (drop (Suc 0) t). is_ascii_word c" using all by (auto dest: in_set_dropD)
  then have rl: "run_len is_ascii_word t (Suc 0) = length t - Suc 0" by (rule run_len_all)
  have last: "match_here U [WordB] t (length t) = Some [length t]" using bl by simp
  have "match_here U [Star is_ascii_word, WordB] t 1 = Some [length t, length t]"
  proof -
    have "(\<lambda>e. map_option ((#) e) (match_here U [WordB] t e)) (Suc 0 + (length t - Suc 0)) =
          Some [length t, length t]" using len last by simp
    from first_down_top[of "\<lambda>e. map_option ((#) e) (match_here U [WordB] t e)", OF this]
    show ?thesis by (simp add: rl)
  qed
  then show ?thesis using b0 len st hd by (simp add: TOKEN_RE_def)
qed

lemma token_no_match_at_end: "match_here U TOKEN_RE t (length t) = None"
  by (simp add: TOKEN_RE_def)

lemma translate_identifier:
  assumes "is_identifier t"
  shows "translate_code_tokens U t = token_repl U t"
proof -
  from assms have len: "0 < length t" by (simp add: is_identifier_def)
  have s0: "re_search U TOKEN_RE t 0 = Some (0, [0, 1, length t, length t])"
    by (subst re_search.simps) (simp add: token_match_identifier[OF assms])
  have s1: "re_search U TOKEN_RE t (length t) = None"
    by (subst re_search.simps, simp add: token_no_match_at_end, subst re_search.simps, simp)
  have r1: "re_sub U TOKEN_RE (token_repl U) t (length t) = []"
    by (subst re_sub.simps) (simp add: s1)
  show ?thesis
    unfolding translate_code_tokens_def
    by (subst re_sub.simps) (simp add: s0 match_end_def slice_def r1 len)
qed

text \<open>
  The composite shape in words: a non-empty subject of letters and underscores, an
  underscore, one of the five intensity words, an underscore, one of the three sign
  words.
\<close>

definition composite :: "ustr \<Rightarrow> ustr \<Rightarrow> ustr \<Rightarrow> ustr \<Rightarrow> bool" where
  "composite token subject level sign =
     (token = subject @ 95 # level @ 95 # sign \<and> subject \<noteq> [] \<and>
      (\<forall>c\<in>set subject. is_ident_start c) \<and>
      level \<in> set LEVEL_WORDS \<and> sign \<in> set SIGN_WORDS)"

lemma first_down_first:
  "k \<le> n \<Longrightarrow> f (pos + k) = Some r \<Longrightarrow> (\<forall>j. k < j \<and> j \<le> n \<longrightarrow> f (pos + j) = None) \<Longrightarrow>
     first_down f pos n = Some r"
proof (induction n)
  case 0
  then show ?case by simp
next
  case (Suc n)
  show ?case
  proof (cases "k = Suc n")
    case True
    with Suc.prems show ?thesis by simp
  next
    case False
    with Suc.prems(1) have kn: "k \<le> n" "k < Suc n \<and> Suc n \<le> Suc n" by simp_all
    from Suc.prems(3) kn(2) have top: "f (pos + Suc n) = None" by blast
    from Suc.prems(3) have "\<forall>j. k < j \<and> j \<le> n \<longrightarrow> f (pos + j) = None" by auto
    from Suc.IH[OF kn(1) Suc.prems(2) this] top show ?thesis by simp
  qed
qed

lemma looking_at_drop:
  assumes "looking_at w text p"
  shows "drop p text = w @ drop (p + length w) text"
proof -
  have t: "take (length w) (drop p text) = w" using assms by (simp add: looking_at_def)
  have "drop p text = take (length w) (drop p text) @ drop (length w) (drop p text)"
    by (rule append_take_drop_id[symmetric])
  then show ?thesis unfolding t by (simp add: add.commute)
qed

lemma alt_level:
  assumes "l \<in> set LEVEL_WORDS" "drop p text = l @ rest"
  shows "match_here U (Alt LEVEL_WORDS # r) text p =
           map_option ((#) (p + length l)) (match_here U r text (p + length l))"
proof -
  from assms(1) consider "l = S ''weak''" | "l = S ''mild''" | "l = S ''severe''" | "l = S ''extreme''" | "l = S ''ultimate''"
    by (auto simp: LEVEL_WORDS_def)
  then show ?thesis
  proof cases
    case 1
    with assms(2) show ?thesis
      by (simp add: LEVEL_WORDS_def S_def looking_at_def split: option.splits)
  next
    case 2
    with assms(2) show ?thesis
      by (simp add: LEVEL_WORDS_def S_def looking_at_def split: option.splits)
  next
    case 3
    with assms(2) show ?thesis
      by (simp add: LEVEL_WORDS_def S_def looking_at_def split: option.splits)
  next
    case 4
    with assms(2) show ?thesis
      by (simp add: LEVEL_WORDS_def S_def looking_at_def split: option.splits)
  next
    case 5
    with assms(2) show ?thesis
      by (simp add: LEVEL_WORDS_def S_def looking_at_def split: option.splits)
  qed
qed

lemma alt_sign:
  assumes "g \<in> set SIGN_WORDS" "drop p text = g @ rest"
  shows "match_here U (Alt SIGN_WORDS # r) text p =
           map_option ((#) (p + length g)) (match_here U r text (p + length g))"
proof -
  from assms(1) consider "g = S ''bonus''" | "g = S ''penalty''" | "g = S ''plus''"
    by (auto simp: SIGN_WORDS_def)
  then show ?thesis
  proof cases
    case 1
    with assms(2) show ?thesis
      by (simp add: SIGN_WORDS_def S_def looking_at_def split: option.splits)
  next
    case 2
    with assms(2) show ?thesis
      by (simp add: SIGN_WORDS_def S_def looking_at_def split: option.splits)
  next
    case 3
    with assms(2) show ?thesis
      by (simp add: SIGN_WORDS_def S_def looking_at_def split: option.splits)
  qed
qed

text \<open>The part of the composite pattern after the subject.\<close>

definition SLS_TAIL :: "item list" where
  "SLS_TAIL = [Lit 95, Alt LEVEL_WORDS, Lit 95, Alt SIGN_WORDS, Eol]"

lemma sls_tail_complete:
  assumes "drop e text = 95 # l @ 95 # g" "l \<in> set LEVEL_WORDS" "g \<in> set SIGN_WORDS"
  shows "match_here U SLS_TAIL text e =
     Some [e + 1, e + 1 + length l, e + 2 + length l, length text, length text]"
proof -
  from nth_of_drop[OF assms(1)] have a: "e < length text" "text ! e = 95" by simp_all
  from assms(1) have d1: "drop (e + 1) text = l @ 95 # g"
    using drop_decomp[of e "text" "[95]"] by simp
  then have d2: "drop (e + 1 + length l) text = 95 # g"
    using drop_decomp[of "e + 1" "text" l] by simp
  from nth_of_drop[OF d2] have b: "e + 1 + length l < length text" "text ! (e + 1 + length l) = 95"
    by simp_all
  from d2 have d3: "drop (e + 1 + length l + 1) text = g @ []"
    using drop_decomp[of "e + 1 + length l" "text" "[95]"] by simp
  from assms(1) have "length (drop e text) = length l + length g + 2" by simp
  then have len: "e + 1 + length l + 1 + length g = length text" using a by simp
  have "match_here U [Alt SIGN_WORDS, Eol] text (e + 1 + length l + 1) =
          Some [length text, length text]"
    unfolding alt_sign[OF assms(3) d3] using len by simp
  then have "match_here U [Lit 95, Alt SIGN_WORDS, Eol] text (e + 1 + length l) =
          Some [e + 2 + length l, length text, length text]"
    using b by (simp add: add.commute)
  then have "match_here U [Alt LEVEL_WORDS, Lit 95, Alt SIGN_WORDS, Eol] text (e + 1) =
          Some [e + 1 + length l, e + 2 + length l, length text, length text]"
    unfolding alt_level[OF assms(2) d1] by simp
  then show ?thesis using a by (simp add: SLS_TAIL_def)
qed

lemma match_Lit_inv:
  assumes "match_here U (Lit c # r) text p = Some es"
  shows "p < length text \<and> text ! p = c \<and>
         (\<exists>es'. match_here U r text (p + 1) = Some es' \<and> es = (p + 1) # es')"
  using assms by (auto split: if_splits)

lemma match_Alt_inv:
  assumes "match_here U (Alt ws # r) text p = Some es"
  shows "\<exists>w\<in>set ws. looking_at w text p \<and>
         (\<exists>es'. match_here U r text (p + length w) = Some es' \<and> es = (p + length w) # es')"
proof -
  from assms obtain w where "w \<in> set ws"
    and "(if looking_at w text p
          then map_option ((#) (p + length w)) (match_here U r text (p + length w))
          else None) = Some es"
    by (auto dest!: first_of_Some)
  then show ?thesis by (auto split: if_splits)
qed

lemma match_Eol_inv:
  assumes "match_here U [Eol] text p = Some es"
  shows "p = length text \<or> (p + 1 = length text \<and> text ! p = 10)"
  using assms by (auto split: if_splits)

lemma sls_tail_sound:
  assumes "match_here U SLS_TAIL text e = Some es" "10 \<notin> set text"
  shows "\<exists>l g. drop e text = 95 # l @ 95 # g \<and> l \<in> set LEVEL_WORDS \<and> g \<in> set SIGN_WORDS"
proof -
  from match_Lit_inv[OF assms(1)[unfolded SLS_TAIL_def]] obtain es1 where
    a: "e < length text" "text ! e = 95"
    and m1: "match_here U [Alt LEVEL_WORDS, Lit 95, Alt SIGN_WORDS, Eol] text (e + 1) = Some es1"
    by blast
  from match_Alt_inv[OF m1] obtain l es2 where l: "l \<in> set LEVEL_WORDS" "looking_at l text (e + 1)"
    and m2: "match_here U [Lit 95, Alt SIGN_WORDS, Eol] text (e + 1 + length l) = Some es2"
    by blast
  from match_Lit_inv[OF m2] obtain es3 where
    b: "e + 1 + length l < length text" "text ! (e + 1 + length l) = 95"
    and m3: "match_here U [Alt SIGN_WORDS, Eol] text (e + 1 + length l + 1) = Some es3"
    by blast
  from match_Alt_inv[OF m3] obtain g es4 where
    g: "g \<in> set SIGN_WORDS" "looking_at g text (e + 1 + length l + 1)"
    and m4: "match_here U [Eol] text (e + 1 + length l + 1 + length g) = Some es4"
    by blast
  have en: "e + 1 + length l + 1 + length g = length text"
  proof (rule ccontr)
    assume ne: "e + 1 + length l + 1 + length g \<noteq> length text"
    with match_Eol_inv[OF m4] have "e + 1 + length l + 1 + length g < length text"
      "text ! (e + 1 + length l + 1 + length g) = 10"
      by auto
    then have "10 \<in> set text" by (metis nth_mem)
    with assms(2) show False by simp
  qed
  have "drop e text = 95 # drop (e + 1) text"
    using a by (metis Cons_nth_drop_Suc Suc_eq_plus1)
  also have "drop (e + 1) text = l @ drop (e + 1 + length l) text"
    using l(2) by (rule looking_at_drop)
  also have "drop (e + 1 + length l) text = 95 # drop (e + 1 + length l + 1) text"
    using b by (metis Cons_nth_drop_Suc Suc_eq_plus1)
  also have "drop (e + 1 + length l + 1) text = g @ drop (e + 1 + length l + 1 + length g) text"
    using g(2) by (rule looking_at_drop)
  also have "drop (e + 1 + length l + 1 + length g) text = []" using en by simp
  finally have "drop e text = 95 # l @ 95 # g" by simp
  with l(1) g(1) show ?thesis by blast
qed

lemma no_underscore_words:
  "l \<in> set LEVEL_WORDS \<Longrightarrow> 95 \<notin> set l \<and> (\<forall>c\<in>set l. is_ident_start c)"
  "g \<in> set SIGN_WORDS \<Longrightarrow> 95 \<notin> set g \<and> (\<forall>c\<in>set g. is_ident_start c)"
  by (auto simp: LEVEL_WORDS_def SIGN_WORDS_def S_def is_ident_start_def)

lemma count_list_drop: "count_list (drop k xs) y \<le> count_list xs y"
proof -
  have "count_list (take k xs @ drop k xs) y = count_list (take k xs) y + count_list (drop k xs) y"
    by (rule count_list_append)
  then show ?thesis by simp
qed

lemma count_list_absent: "y \<notin> set xs \<Longrightarrow> count_list xs y = 0"
  by (induction xs) auto

lemma sls_tail_unique:
  assumes "drop n text = 95 # l @ 95 # g" "l \<in> set LEVEL_WORDS" "g \<in> set SIGN_WORDS"
    and "drop e text = 95 # l' @ 95 # g'" "l' \<in> set LEVEL_WORDS" "g' \<in> set SIGN_WORDS"
    and "n < e"
  shows False
proof -
  have c: "count_list (drop n text) 95 = 2" "count_list (drop e text) 95 = 2"
    using assms no_underscore_words by (simp_all add: count_list_absent)
  from assms(7) obtain k where k: "e = n + 1 + k" using less_iff_Suc_add by auto
  have "drop e text = drop k (drop (n + 1) text)" by (simp add: k add.commute)
  also have "drop (n + 1) text = l @ 95 # g"
    using assms(1) drop_decomp[of n "text" "[95]"] by simp
  finally have "count_list (drop e text) 95 \<le> count_list (l @ 95 # g) 95"
    using count_list_drop[of k "l @ 95 # g" 95] by simp
  also have "count_list (l @ 95 # g) 95 = 1"
    using assms(2,3) no_underscore_words by (simp add: count_list_absent)
  finally show False using c by simp
qed

lemma composite_no_newline:
  assumes "composite t s l g"
  shows "10 \<notin> set t \<and> is_identifier t"
proof -
  from assms have t: "t = s @ 95 # l @ 95 # g" and ne: "s \<noteq> []"
    and sp: "\<forall>c\<in>set s. is_ident_start c" and l: "l \<in> set LEVEL_WORDS" and g: "g \<in> set SIGN_WORDS"
    by (auto simp: composite_def)
  have all: "\<forall>c\<in>set t. is_ident_start c"
    using sp no_underscore_words(1)[OF l] no_underscore_words(2)[OF g]
    by (auto simp: t is_ident_start_def)
  then have "10 \<notin> set t" by (auto simp: is_ident_start_def)
  moreover have "hd t = hd s" using ne by (simp add: t)
  then have "is_ident_start (hd t)" using sp ne by simp
  moreover have "\<forall>c\<in>set t. is_ascii_word c"
    using all by (auto simp: is_ident_start_def is_ascii_word_def)
  moreover have "t \<noteq> []" by (simp add: t)
  ultimately show ?thesis by (simp add: is_identifier_def)
qed

lemma sls_match_composite:
  assumes "composite t s l g"
  shows "match_here U SUBJECT_LEVEL_SIGN_RE t 0 =
     Some [0, length s, length s + 1, length s + 1 + length l, length s + 2 + length l,
           length t, length t]"
proof -
  from assms have t: "t = s @ 95 # l @ 95 # g" and ne: "s \<noteq> []"
    and sp: "\<forall>c\<in>set s. is_ident_start c" and l: "l \<in> set LEVEL_WORDS" and g: "g \<in> set SIGN_WORDS"
    by (auto simp: composite_def)
  from composite_no_newline[OF assms] have nl: "10 \<notin> set t" by simp
  let ?n = "run_len is_ident_start t 0"
  let ?f = "\<lambda>e. map_option ((#) e) (match_here U SLS_TAIL t e)"
  have ds: "drop (length s) t = 95 # l @ 95 # g" by (simp add: t)
  have "takeWhile is_ident_start (s @ rest) = s @ takeWhile is_ident_start rest" for rest
    using sp by (simp add: takeWhile_append2)
  then have sn: "length s \<le> ?n" by (simp add: run_len_def t)
  from ne have s1: "1 \<le> length s" by (cases s) auto
  with sn have n0: "?n \<noteq> 0" by simp
  have here: "?f (1 + (length s - 1)) =
      Some [length s, length s + 1, length s + 1 + length l, length s + 2 + length l,
            length t, length t]"
  proof -
    from s1 have eq: "1 + (length s - 1) = length s" by simp
    show ?thesis unfolding eq using sls_tail_complete[OF ds l g, of U] by simp
  qed
  have later: "\<forall>j. length s - 1 < j \<and> j \<le> ?n - 1 \<longrightarrow> ?f (1 + j) = None"
  proof (intro allI impI)
    fix j assume j: "length s - 1 < j \<and> j \<le> ?n - 1"
    show "?f (1 + j) = None"
    proof (cases "match_here U SLS_TAIL t (1 + j)")
      case None
      then show ?thesis by simp
    next
      case (Some es)
      from sls_tail_sound[OF Some nl] obtain l' g' where
        "drop (1 + j) t = 95 # l' @ 95 # g'" "l' \<in> set LEVEL_WORDS" "g' \<in> set SIGN_WORDS"
        by blast
      moreover from j s1 have "length s < 1 + j" by linarith
      ultimately show ?thesis using sls_tail_unique[OF ds l g] by blast
    qed
  qed
  have "first_down ?f 1 (?n - 1) =
      Some [length s, length s + 1, length s + 1 + length l, length s + 2 + length l,
            length t, length t]"
    using sn s1 by (intro first_down_first[OF _ here later]) simp
  then show ?thesis
    using n0 by (simp add: SUBJECT_LEVEL_SIGN_RE_def SLS_TAIL_def)
qed

lemma sls_match_inv:
  assumes "match_here U SUBJECT_LEVEL_SIGN_RE t 0 = Some ends" "10 \<notin> set t"
  shows "\<exists>s l g. composite t s l g"
proof -
  let ?n = "run_len is_ident_start t 0"
  let ?f = "\<lambda>e. map_option ((#) e) (match_here U SLS_TAIL t e)"
  from assms(1) obtain es where n0: "?n \<noteq> 0" and fd: "first_down ?f 1 (?n - 1) = Some es"
    by (auto simp: SUBJECT_LEVEL_SIGN_RE_def SLS_TAIL_def split: if_splits)
  from first_down_Some[OF fd] obtain k es' where k: "k \<le> ?n - 1"
    and m: "match_here U SLS_TAIL t (1 + k) = Some es'" by auto
  from sls_tail_sound[OF m assms(2)] obtain l g where
    d: "drop (1 + k) t = 95 # l @ 95 # g" and l: "l \<in> set LEVEL_WORDS" and g: "g \<in> set SIGN_WORDS"
    by blast
  define s where "s = take (1 + k) t"
  from k n0 have kn: "1 + k \<le> ?n" by simp
  from take_in_run[OF kn] have sp: "\<forall>c\<in>set s. is_ident_start c" by (simp add: s_def)
  from nth_of_drop[OF d] have "1 + k < length t" by simp
  then have ne: "s \<noteq> []" by (auto simp: s_def)
  have "t = s @ drop (1 + k) t" unfolding s_def by simp
  with d have "t = s @ 95 # l @ 95 # g" by simp
  with ne sp l g have "composite t s l g" by (simp add: composite_def)
  then show ?thesis by blast
qed

lemma token_repl_composite:
  assumes "composite t s l g"
  shows "token_repl U t = dict_get SUBJECT_MAP s s @ dict_get LEVEL_MAP l l @ dict_get SIGN_MAP g g"
proof -
  from assms have t: "t = s @ 95 # l @ 95 # g" by (simp add: composite_def)
  have a: "slice t 0 (length s) = s" by (simp add: slice_def t)
  have b: "slice t (length s + 1) (length s + 1 + length l) = l" by (simp add: slice_def t)
  have c: "slice t (length s + 2 + length l) (length t) = g" by (simp add: slice_def t)
  show ?thesis
    unfolding token_repl_def sls_match_composite[OF assms]
    using a b c by (simp add: Let_def)
qed

lemma token_repl_plain:
  assumes "is_identifier t" "\<forall>s l g. \<not> composite t s l g"
  shows "token_repl U t = dict_get CODE_TOKEN_MAP t t"
proof -
  from assms(1) have "10 \<notin> set t" by (auto simp: is_identifier_def is_ascii_word_def)
  with assms(2) sls_match_inv[of U t] have "match_here U SUBJECT_LEVEL_SIGN_RE t 0 = None"
    by (cases "match_here U SUBJECT_LEVEL_SIGN_RE t 0") auto
  then show ?thesis by (simp add: token_repl_def)
qed

lemma slice_drop: "a \<le> b \<Longrightarrow> slice text a b @ drop b text = drop a text"
proof -
  assume "a \<le> b"
  then have "drop b text = drop (b - a) (drop a text)" by simp
  then show ?thesis unfolding slice_def by (metis append_take_drop_id)
qed

lemma finditer_unfold:
  "re_search U pat text pos = Some m \<Longrightarrow>
     finditer U pat text pos =
       m # finditer U pat text (if match_end m = fst m then fst m + 1 else match_end m)"
  by (subst finditer.simps) simp

lemma re_sub_identity:
  "(\<forall>m\<in>set (finditer U pat text pos).
      repl (slice text (fst m) (match_end m)) = slice text (fst m) (match_end m)) \<Longrightarrow>
   re_sub U pat repl text pos = drop pos text"
proof (induction U pat repl "text" pos rule: re_sub.induct)
  case (1 U pat repl t pos)
  show ?case
  proof (cases "re_search U pat t pos")
    case None
    then show ?thesis by (subst re_sub.simps) simp
  next
    case (Some m)
    obtain s ends where m: "m = (s, ends)" by (cases m)
    from re_search_Some[OF Some[unfolded m]] have a: "pos \<le> s" "s \<le> length t"
      and mh: "match_here U pat t s = Some ends" by auto
    from match_end_ge[OF mh] have ge: "s \<le> match_end m" by (simp add: m)
    note fi = finditer_unfold[OF Some]
    from "1.prems" fi have id: "repl (slice t s (match_end m)) = slice t s (match_end m)"
      by (simp add: m)
    from "1.prems" fi have rest:
      "\<forall>m'\<in>set (finditer U pat t (if match_end m = fst m then fst m + 1 else match_end m)).
         repl (slice t (fst m') (match_end m')) = slice t (fst m') (match_end m')"
      by simp
    show ?thesis
    proof (cases "match_end m = fst m")
      case True
      then have e: "match_end m = s" by (simp add: m)
      show ?thesis
      proof (cases "s < length t")
        case sl: True
        from "1.IH"(1)[OF Some True] sl rest True
        have ih: "re_sub U pat repl t (s + 1) = drop (s + 1) t" by (simp add: m)
        have "re_sub U pat repl t pos = slice t pos s @ slice t s s @ t ! s # drop (s + 1) t"
          using Some True sl ih id e by (subst re_sub.simps) (simp add: m)
        also have "slice t s s = []" by (simp add: slice_def)
        also have "t ! s # drop (s + 1) t = drop s t" using sl by (simp add: Cons_nth_drop_Suc)
        finally show ?thesis using slice_drop[OF a(1)] by simp
      next
        case False
        with a have sl: "s = length t" by simp
        have "re_sub U pat repl t pos = slice t pos s @ slice t s s"
          using Some True sl id e by (subst re_sub.simps) (simp add: m)
        also have "slice t s s = []" by (simp add: slice_def)
        finally show ?thesis using slice_drop[OF a(1), of t] sl by simp
      qed
    next
      case False
      from "1.IH"(2)[OF Some False] rest False
      have ih: "re_sub U pat repl t (match_end m) = drop (match_end m) t" by simp
      have "re_sub U pat repl t pos = slice t pos s @ slice t s (match_end m) @ drop (match_end m) t"
        using Some False ih id by (subst re_sub.simps) (simp add: m)
      then show ?thesis using slice_drop[OF ge, of t] slice_drop[OF a(1), of t] by simp
    qed
  qed
qed

text \<open>The tokens of a line: the substrings that the token pattern matches, in order.\<close>

definition line_tokens :: "unicode \<Rightarrow> ustr \<Rightarrow> ustr list" where
  "line_tokens U line =
     map (\<lambda>m. slice line (fst m) (match_end m)) (finditer U TOKEN_RE line 0)"

lemma token_match_is_identifier:
  assumes "match_here U TOKEN_RE text s = Some ends"
  shows "is_identifier (slice text s (match_end (s, ends)))"
proof -
  let ?f = "\<lambda>e. map_option ((#) e) (match_here U [WordB] text e)"
  from assms obtain es where a: "s < length text" "is_ident_start (text ! s)"
    and fd: "first_down ?f (s + 1) (run_len is_ascii_word text (s + 1)) = Some es"
    and en: "ends = s # (s + 1) # es"
    by (auto simp: TOKEN_RE_def split: if_splits)
  from first_down_Some[OF fd] obtain k where k: "k \<le> run_len is_ascii_word text (s + 1)"
    and fk: "?f (s + 1 + k) = Some es" by auto
  then have es: "es = [s + 1 + k, s + 1 + k]" by (auto split: if_splits)
  have me: "match_end (s, ends) = s + 1 + k" by (simp add: match_end_def en es)
  have "drop s text = text ! s # drop (s + 1) text" using a(1) by (simp add: Cons_nth_drop_Suc)
  then have sl: "slice text s (s + 1 + k) = text ! s # take k (drop (s + 1) text)"
    by (simp add: slice_def)
  from take_in_run[OF k] have "\<forall>c\<in>set (take k (drop (s + 1) text)). is_ascii_word c" .
  moreover from a(2) have "is_ascii_word (text ! s)"
    by (auto simp: is_ident_start_def is_ascii_word_def)
  ultimately show ?thesis using a(2) unfolding me sl by (simp add: is_identifier_def)
qed

lemma line_tokens_identifier:
  assumes "tok \<in> set (line_tokens U line)"
  shows "is_identifier tok"
proof -
  from assms obtain m where m: "m \<in> set (finditer U TOKEN_RE line 0)"
    and t: "tok = slice line (fst m) (match_end m)" by (auto simp: line_tokens_def)
  from finditer_matches[OF m] have "match_here U TOKEN_RE line (fst m) = Some (snd m)" by simp
  from token_match_is_identifier[OF this] t show ?thesis by simp
qed

lemma token_repl_unmapped:
  assumes "is_identifier t" "\<forall>s l g. \<not> composite t s l g" "map_of CODE_TOKEN_MAP t = None"
  shows "token_repl U t = t"
  using token_repl_plain[OF assms(1,2)] assms(3) by (simp add: dict_get_def)

lemma translate_unmapped_line:
  assumes "\<forall>tok\<in>set (line_tokens U line).
             (\<forall>s l g. \<not> composite tok s l g) \<and> map_of CODE_TOKEN_MAP tok = None"
  shows "translate_code_tokens U line = line"
proof -
  have "\<forall>m\<in>set (finditer U TOKEN_RE line 0).
          token_repl U (slice line (fst m) (match_end m)) = slice line (fst m) (match_end m)"
  proof
    fix m assume "m \<in> set (finditer U TOKEN_RE line 0)"
    then have mem: "slice line (fst m) (match_end m) \<in> set (line_tokens U line)"
      by (simp add: line_tokens_def)
    from line_tokens_identifier[OF mem] assms mem
    show "token_repl U (slice line (fst m) (match_end m)) = slice line (fst m) (match_end m)"
      by (intro token_repl_unmapped) auto
  qed
  from re_sub_identity[OF this] show ?thesis by (simp add: translate_code_tokens_def)
qed

text \<open>
  A match of the token pattern is determined by its start: it begins on a letter or an
  underscore that no word character precedes, runs over the whole run of ASCII word
  characters, and needs that no word character follows the run. \<open>token_end\<close> is the end
  of the match that starts at \<open>s\<close>, if there is one.
\<close>

definition token_end :: "unicode \<Rightarrow> ustr \<Rightarrow> nat \<Rightarrow> nat option" where
  "token_end U text s =
     (if s < length text \<and> is_ident_start (text ! s) \<and>
         \<not> (0 < s \<and> is_word U (text ! (s - 1))) \<and>
         \<not> word_at U text (s + 1 + run_len is_ascii_word text (s + 1))
      then Some (s + 1 + run_len is_ascii_word text (s + 1)) else None)"

lemma ident_start_word: "is_ident_start c \<Longrightarrow> is_ascii_word c"
  by (auto simp: is_ident_start_def is_ascii_word_def)

lemma token_run_word:
  assumes "s < length text" "is_ident_start (text ! s)" "j \<le> run_len is_ascii_word text (s + 1)"
  shows "s + j < length text \<and> is_ascii_word (text ! (s + j))"
proof (cases j)
  case 0
  with assms show ?thesis by (simp add: ident_start_word)
next
  case (Suc i)
  with assms(3) have "i < run_len is_ascii_word text (s + 1)" by simp
  from run_len_inside[OF this] Suc show ?thesis by simp
qed

lemma token_match_det:
  "match_here U TOKEN_RE text s = map_option (\<lambda>e. [s, s + 1, e, e]) (token_end U text s)"
proof (cases "s < length text \<and> is_ident_start (text ! s)")
  case False
  then show ?thesis by (auto simp: TOKEN_RE_def token_end_def)
next
  case True
  then have sl: "s < length text" and st: "is_ident_start (text ! s)" by auto
  define n where "n = run_len is_ascii_word text (s + 1)"
  define e where "e = s + 1 + n"
  let ?f = "\<lambda>q. map_option ((#) q) (match_here U [WordB] text q)"
  have run: "word_at U text (s + j)" if "j \<le> n" for j
    using token_run_word[OF sl st that[unfolded n_def]]
    by (simp add: word_at_def ascii_word_is_word)
  have ws: "word_at U text s" using run[of 0] by simp
  have wb: "word_boundary U text s \<longleftrightarrow> \<not> (0 < s \<and> is_word U (text ! (s - 1)))"
    using ws sl by (auto simp: word_boundary_def word_at_def)
  have inner: "?f (s + 1 + k) = None" if "k < n" for k
  proof -
    from that have "word_at U text (s + Suc k)" "word_at U text (s + k)"
      using run[of "Suc k"] run[of k] by simp_all
    then have "\<not> word_boundary U text (s + 1 + k)" by (simp add: word_boundary_def)
    then show ?thesis by simp
  qed
  have "word_at U text (s + n)" using run[of n] by simp
  then have wbe: "word_boundary U text e \<longleftrightarrow> \<not> word_at U text e"
    by (simp add: word_boundary_def e_def)
  have fe: "?f e = (if \<not> word_at U text e then Some [e, e] else None)"
    using wbe by simp
  have "first_down ?f (s + 1) n = ?f (s + 1 + n)"
    by (rule first_down_last) (use inner in blast)
  then have fd: "first_down ?f (s + 1) n = (if \<not> word_at U text e then Some [e, e] else None)"
    using fe by (simp add: e_def)
  have "match_here U TOKEN_RE text s =
      (if word_boundary U text s
       then map_option ((#) s) (map_option ((#) (s + 1)) (first_down ?f (s + 1) n)) else None)"
    using sl st by (simp add: TOKEN_RE_def n_def)
  then have lhs: "match_here U TOKEN_RE text s =
      (if \<not> (0 < s \<and> is_word U (text ! (s - 1))) \<and> \<not> word_at U text e
       then Some [s, s + 1, e, e] else None)"
    unfolding fd wb by simp
  have te: "token_end U text s =
      (if \<not> (0 < s \<and> is_word U (text ! (s - 1))) \<and> \<not> word_at U text e then Some e else None)"
    unfolding token_end_def e_def n_def using sl st by simp
  show ?thesis unfolding lhs te by simp
qed

lemma token_end_Some:
  assumes "token_end U text s = Some e"
  shows "s < e \<and> e \<le> length text \<and> is_word U (text ! (e - 1)) \<and>
         e = s + 1 + run_len is_ascii_word text (s + 1)"
proof -
  from assms have sl: "s < length text" and st: "is_ident_start (text ! s)"
    and e: "e = s + 1 + run_len is_ascii_word text (s + 1)"
    by (auto simp: token_end_def split: if_splits)
  from token_run_word[OF sl st order_refl]
  have "s + run_len is_ascii_word text (s + 1) < length text"
    "is_ascii_word (text ! (s + run_len is_ascii_word text (s + 1)))" by auto
  then show ?thesis using e by (simp add: ascii_word_is_word)
qed


text \<open>
  Matching is local. In front of a character that is no word character the matches are
  those of the prefix alone; behind a word character followed by none, the matches are
  those of the suffix alone, shifted.
\<close>

lemma token_end_prefix:
  assumes sl: "s < length pre" and nw: "\<not> is_word U (last pre)"
  shows "token_end U (pre @ rest) s = token_end U pre s"
proof (cases "is_ident_start (pre ! s)")
  case False
  with sl show ?thesis by (simp add: token_end_def nth_append)
next
  case True
  define n where "n = run_len is_ascii_word pre (s + 1)"
  from token_run_word[OF sl True order_refl]
  have a: "s + n < length pre" "is_ascii_word (pre ! (s + n))" by (auto simp: n_def)
  from sl have ne: "pre \<noteq> []" by auto
  have "s + n \<noteq> length pre - 1"
  proof
    assume "s + n = length pre - 1"
    with a(2) ne have "is_ascii_word (last pre)" by (simp add: last_conv_nth)
    with nw show False by (simp add: ascii_word_is_word)
  qed
  with a(1) have lt: "s + 1 + n < length pre" by simp
  from run_len_stop(2)[of "s + 1" is_ascii_word pre] lt
  have stop: "\<not> is_ascii_word (pre ! (s + 1 + n))" by (simp add: n_def)
  have mem: "pre ! (s + 1 + n) \<in> set (drop (s + 1) pre)"
  proof -
    from lt have "n < length (drop (s + 1) pre)" by simp
    then have "drop (s + 1) pre ! n \<in> set (drop (s + 1) pre)" by (rule nth_mem)
    moreover have "drop (s + 1) pre ! n = pre ! (s + 1 + n)" using lt by simp
    ultimately show ?thesis by simp
  qed
  have "takeWhile is_ascii_word (drop (s + 1) pre @ rest) = takeWhile is_ascii_word (drop (s + 1) pre)"
    using mem stop by (rule takeWhile_append1)
  then have rl: "run_len is_ascii_word (pre @ rest) (s + 1) = n"
    using sl by (simp add: run_len_def n_def)
  have w: "word_at U (pre @ rest) (s + 1 + n) = word_at U pre (s + 1 + n)"
    using lt by (simp add: word_at_def nth_append)
  from sl have sl1: "s - 1 < length pre" by arith
  have c: "(pre @ rest) ! s = pre ! s" "(pre @ rest) ! (s - 1) = pre ! (s - 1)"
    using sl sl1 by (simp_all only: nth_append if_True)
  show ?thesis
    unfolding token_end_def rl n_def[symmetric] w c using sl by simp
qed

lemma token_end_inside:
  assumes "token_end U pre s = Some e" "\<not> is_word U (last pre)"
  shows "e < length pre"
proof -
  from token_end_Some[OF assms(1)] have a: "s < e" "e \<le> length pre" "is_word U (pre ! (e - 1))"
    by auto
  then have ne: "pre \<noteq> []" by auto
  have "e \<noteq> length pre"
  proof
    assume "e = length pre"
    with a(3) ne have "is_word U (last pre)" by (simp add: last_conv_nth)
    with assms(2) show False by simp
  qed
  with a(2) show ?thesis by simp
qed

lemma token_end_standalone:
  assumes id: "is_identifier t"
    and pre: "pre = [] \<or> \<not> is_word U (last pre)"
    and post: "post = [] \<or> \<not> is_word U (hd post)"
  shows "token_end U (pre @ t @ post) (length pre) = Some (length pre + length t)"
proof -
  from id obtain c cs where t: "t = c # cs" and st: "is_ident_start c"
    and all: "\<forall>x\<in>set cs. is_ascii_word x"
    by (cases t) (auto simp: is_identifier_def)
  let ?L = "pre @ t @ post"
  have c0: "?L ! length pre = c" by (simp add: t nth_append)
  have prev: "\<not> (0 < length pre \<and> is_word U (?L ! (length pre - 1)))"
  proof
    assume a: "0 < length pre \<and> is_word U (?L ! (length pre - 1))"
    then have ne: "pre \<noteq> []" by auto
    then have "?L ! (length pre - 1) = last pre" by (simp add: nth_append last_conv_nth)
    with a pre ne show False by simp
  qed
  have tw: "takeWhile is_ascii_word post = []"
  proof (cases post)
    case Nil
    then show ?thesis by simp
  next
    case (Cons x xs)
    with post have "\<not> is_word U x" by simp
    then have "\<not> is_ascii_word x" using ascii_word_is_word by blast
    with Cons show ?thesis by simp
  qed
  have "drop (length pre + 1) ?L = cs @ post" by (simp add: t)
  then have rl: "run_len is_ascii_word ?L (length pre + 1) = length cs"
    using all tw by (simp add: run_len_def takeWhile_append2)
  have e: "length pre + 1 + length cs = length pre + length t" by (simp add: t)
  have nw: "\<not> word_at U ?L (length pre + length t)"
  proof (cases post)
    case Nil
    then show ?thesis by (simp add: word_at_def)
  next
    case (Cons x xs)
    with post have "\<not> is_word U x" by simp
    moreover have "?L ! (length pre + length t) = x"
      using Cons by (simp add: nth_append)
    ultimately show ?thesis by (simp add: word_at_def)
  qed
  show ?thesis
    unfolding token_end_def rl e c0 using st prev nw by (simp add: t)
qed

lemma token_end_suffix:
  assumes ne: "a \<noteq> []" and w: "is_word U (last a)"
    and post: "post = [] \<or> \<not> is_word U (hd post)"
  shows "token_end U (a @ post) (length a + q) = map_option ((+) (length a)) (token_end U post q)"
proof (cases "q < length post")
  case False
  then show ?thesis by (simp add: token_end_def)
next
  case ql: True
  then have pne: "post \<noteq> []" by auto
  with post have nw: "\<not> is_word U (hd post)" by simp
  show ?thesis
  proof (cases "q = 0")
    case True
    from nw pne have "\<not> is_ident_start (post ! 0)"
      using ascii_word_is_word ident_start_word by (auto simp: hd_conv_nth)
    then show ?thesis using True by (simp add: token_end_def nth_append)
  next
    case False
    then have q0: "0 < q" by simp
    have c1: "(a @ post) ! (length a + q) = post ! q" by simp
    have "length a + q - 1 = length a + (q - 1)" using q0 by simp
    then have c2: "(a @ post) ! (length a + q - 1) = post ! (q - 1)" by simp
    note c = c1 c2
    have rl: "run_len is_ascii_word (a @ post) (length a + q + 1) = run_len is_ascii_word post (q + 1)"
      by (simp add: run_len_def)
    have wa: "word_at U (a @ post) (length a + k) = word_at U post k" for k
      by (simp add: word_at_def nth_append)
    have wa': "word_at U (a @ post) (length a + q + 1 + run_len is_ascii_word post (q + 1)) =
        word_at U post (q + 1 + run_len is_ascii_word post (q + 1))"
      using wa[of "q + 1 + run_len is_ascii_word post (q + 1)"] by (simp add: add.assoc)
    show ?thesis
      unfolding token_end_def rl c wa' using q0 ql by simp
  qed
qed

lemma token_match_prefix:
  assumes "s < length pre" "\<not> is_word U (last pre)"
  shows "match_here U TOKEN_RE (pre @ rest) s = match_here U TOKEN_RE pre s"
  unfolding token_match_det token_end_prefix[OF assms] ..

lemma token_search_prefix:
  assumes "pre = [] \<or> \<not> is_word U (last pre)" "pos \<le> length pre"
  shows "re_search U TOKEN_RE (pre @ rest) pos =
           (case re_search U TOKEN_RE pre pos of
              Some m \<Rightarrow> Some m
            | None \<Rightarrow> re_search U TOKEN_RE (pre @ rest) (length pre))"
  using assms(2)
proof (induction "length pre - pos" arbitrary: pos)
  case 0
  then have p: "pos = length pre" by simp
  have "re_search U TOKEN_RE pre (length pre) = None"
    by (subst re_search.simps, simp add: token_no_match_at_end, subst re_search.simps, simp)
  then show ?case by (simp add: p)
next
  case (Suc k)
  then have lt: "pos < length pre" by simp
  then have "pre \<noteq> []" by auto
  with assms(1) have nw: "\<not> is_word U (last pre)" by simp
  note mh = token_match_prefix[OF lt nw, of rest]
  show ?case
  proof (cases "match_here U TOKEN_RE pre pos")
    case (Some ends)
    have "re_search U TOKEN_RE pre pos = Some (pos, ends)"
      using lt Some by (subst re_search.simps) simp
    moreover have "re_search U TOKEN_RE (pre @ rest) pos = Some (pos, ends)"
      using lt Some mh by (subst re_search.simps) simp
    ultimately show ?thesis by simp
  next
    case None
    have a: "re_search U TOKEN_RE pre pos = re_search U TOKEN_RE pre (pos + 1)"
      using lt None by (subst re_search.simps) simp
    have b: "re_search U TOKEN_RE (pre @ rest) pos = re_search U TOKEN_RE (pre @ rest) (pos + 1)"
      using lt None mh by (subst re_search.simps) simp
    from Suc(2) lt have "k = length pre - (pos + 1)" by simp
    from Suc(1)[OF this] lt show ?thesis unfolding a b by simp
  qed
qed


lemma token_search_Some:
  assumes "re_search U TOKEN_RE text pos = Some m"
  shows "\<exists>s e. m = (s, [s, s + 1, e, e]) \<and> pos \<le> s \<and> token_end U text s = Some e \<and>
           match_end m = e \<and> s < e \<and> e \<le> length text"
proof -
  obtain s ends where m: "m = (s, ends)" by (cases m)
  from re_search_Some[OF assms[unfolded m]] have a: "pos \<le> s"
    and mh: "match_here U TOKEN_RE text s = Some ends" by auto
  from mh obtain e where e: "token_end U text s = Some e" and en: "ends = [s, s + 1, e, e]"
    unfolding token_match_det by auto
  from token_end_Some[OF e] have "s < e" "e \<le> length text" by auto
  with m a e en show ?thesis by (simp add: match_end_def)
qed

lemma token_sub_step:
  assumes "re_search U TOKEN_RE text pos = Some (s, [s, s + 1, e, e])" "s < e"
  shows "re_sub U TOKEN_RE r text pos =
           slice text pos s @ r (slice text s e) @ re_sub U TOKEN_RE r text e"
  using assms by (subst re_sub.simps) (simp add: match_end_def)

lemma slice_append_left: "b \<le> length pre \<Longrightarrow> slice (pre @ rest) a b = slice pre a b"
  by (simp add: slice_def)

lemma slice_append_right: "slice (a @ post) (length a + x) (length a + y) = slice post x y"
  by (simp add: slice_def)

lemma token_sub_prefix:
  assumes id: "is_identifier t"
    and pre: "pre = [] \<or> \<not> is_word U (last pre)"
    and post: "post = [] \<or> \<not> is_word U (hd post)"
    and pos: "pos \<le> length pre"
  shows "re_sub U TOKEN_RE r (pre @ t @ post) pos =
           re_sub U TOKEN_RE r pre pos @ r t @
           re_sub U TOKEN_RE r (pre @ t @ post) (length pre + length t)"
  using pos
proof (induction "length pre - pos" arbitrary: pos rule: less_induct)
  case less
  let ?L = "pre @ t @ post"
  let ?n = "length pre"
  from id have tl: "0 < length t" by (simp add: is_identifier_def)
  note sp = token_search_prefix[OF pre less.prems, of "t @ post"]
  show ?case
  proof (cases "re_search U TOKEN_RE pre pos")
    case None
    have "match_here U TOKEN_RE ?L ?n = Some [?n, ?n + 1, ?n + length t, ?n + length t]"
      unfolding token_match_det token_end_standalone[OF id pre post] by simp
    then have "re_search U TOKEN_RE ?L ?n = Some (?n, [?n, ?n + 1, ?n + length t, ?n + length t])"
      by (subst re_search.simps) simp
    with sp None have rs: "re_search U TOKEN_RE ?L pos =
        Some (?n, [?n, ?n + 1, ?n + length t, ?n + length t])" by simp
    have a: "slice ?L pos ?n = drop pos pre" using less.prems by (simp add: slice_def)
    have b: "slice ?L ?n (?n + length t) = t" by (simp add: slice_def)
    have c: "re_sub U TOKEN_RE r pre pos = drop pos pre"
      using None by (subst re_sub.simps) simp
    from tl have lt: "?n < ?n + length t" by simp
    show ?thesis
      unfolding token_sub_step[OF rs lt, of r] a b c by simp
  next
    case (Some m)
    from token_search_Some[OF Some] obtain s e where m: "m = (s, [s, s + 1, e, e])"
      and ps: "pos \<le> s" and te: "token_end U pre s = Some e" and se: "s < e" "e \<le> length pre"
      by auto
    from sp Some m have rs: "re_search U TOKEN_RE ?L pos = Some (s, [s, s + 1, e, e])" by simp
    have a: "slice ?L pos s = slice pre pos s" "slice ?L s e = slice pre s e"
      using se by (simp_all add: slice_append_left)
    from ps se have "length pre - e < length pre - pos" by simp
    from less.hyps[OF this se(2)]
    have ih: "re_sub U TOKEN_RE r ?L e =
        re_sub U TOKEN_RE r pre e @ r t @ re_sub U TOKEN_RE r ?L (?n + length t)" .
    show ?thesis
      unfolding token_sub_step[OF rs se(1), of r] token_sub_step[OF Some[unfolded m] se(1), of r] a ih
      by simp
  qed
qed

lemma token_match_suffix:
  assumes "a \<noteq> []" "is_word U (last a)" "post = [] \<or> \<not> is_word U (hd post)"
  shows "match_here U TOKEN_RE (a @ post) (length a + q) =
           map_option (map ((+) (length a))) (match_here U TOKEN_RE post q)"
  unfolding token_match_det token_end_suffix[OF assms]
  by (cases "token_end U post q") simp_all

lemma token_search_suffix:
  assumes "a \<noteq> []" "is_word U (last a)" "post = [] \<or> \<not> is_word U (hd post)"
  shows "re_search U TOKEN_RE (a @ post) (length a + q) =
           map_option (\<lambda>m. (length a + fst m, map ((+) (length a)) (snd m)))
             (re_search U TOKEN_RE post q)"
proof (induction "Suc (length post) - q" arbitrary: q rule: less_induct)
  case less
  show ?case
  proof (cases "length post < q")
    case True
    then show ?thesis by (subst re_search.simps, simp, subst re_search.simps, simp)
  next
    case le: False
    note mh = token_match_suffix[OF assms, of q]
    show ?thesis
    proof (cases "match_here U TOKEN_RE post q")
      case (Some ends)
      have "re_search U TOKEN_RE post q = Some (q, ends)"
        using le Some by (subst re_search.simps) simp
      moreover have "re_search U TOKEN_RE (a @ post) (length a + q) =
          Some (length a + q, map ((+) (length a)) ends)"
        using le Some mh by (subst re_search.simps) simp
      ultimately show ?thesis by simp
    next
      case None
      have x: "re_search U TOKEN_RE post q = re_search U TOKEN_RE post (q + 1)"
        using le None by (subst re_search.simps) simp
      have "re_search U TOKEN_RE (a @ post) (length a + q) =
          re_search U TOKEN_RE (a @ post) (length a + q + 1)"
        using le None mh by (subst re_search.simps) simp
      then have y: "re_search U TOKEN_RE (a @ post) (length a + q) =
          re_search U TOKEN_RE (a @ post) (length a + (q + 1))" by (simp add: add.assoc)
      from le have "Suc (length post) - (q + 1) < Suc (length post) - q" by simp
      from less.hyps[OF this] show ?thesis unfolding x y .
    qed
  qed
qed

lemma token_sub_suffix:
  assumes "a \<noteq> []" "is_word U (last a)" "post = [] \<or> \<not> is_word U (hd post)"
  shows "re_sub U TOKEN_RE r (a @ post) (length a + q) = re_sub U TOKEN_RE r post q"
proof (induction "Suc (length post) - q" arbitrary: q rule: less_induct)
  case less
  note ss = token_search_suffix[OF assms, of q]
  show ?case
  proof (cases "re_search U TOKEN_RE post q")
    case None
    with ss have "re_search U TOKEN_RE (a @ post) (length a + q) = None" by simp
    then have "re_sub U TOKEN_RE r (a @ post) (length a + q) = drop (length a + q) (a @ post)"
      by (subst re_sub.simps) simp
    moreover have "re_sub U TOKEN_RE r post q = drop q post"
      using None by (subst re_sub.simps) simp
    ultimately show ?thesis by simp
  next
    case (Some m)
    from token_search_Some[OF Some] obtain s e where m: "m = (s, [s, s + 1, e, e])"
      and qs: "q \<le> s" and se: "s < e" "e \<le> length post" by auto
    let ?k = "length a"
    from ss Some m have rs: "re_search U TOKEN_RE (a @ post) (?k + q) =
        Some (?k + s, [?k + s, ?k + s + 1, ?k + e, ?k + e])" by (simp add: add.assoc)
    from se have se': "?k + s < ?k + e" by simp
    from qs se have "Suc (length post) - e < Suc (length post) - q" by simp
    from less.hyps[OF this]
    have ih: "re_sub U TOKEN_RE r (a @ post) (?k + e) = re_sub U TOKEN_RE r post e" .
    show ?thesis
      unfolding token_sub_step[OF rs se', of r] token_sub_step[OF Some[unfolded m] se(1), of r]
        slice_append_right ih ..
  qed
qed

text \<open>
  The substitution works token by token: around a standalone identifier the line is
  rendered as the rendering of what precedes it, the replacement of the identifier, and
  the rendering of what follows it.
\<close>

lemma translate_in_context:
  assumes id: "is_identifier t"
    and pre: "pre = [] \<or> \<not> is_word U (last pre)"
    and post: "post = [] \<or> \<not> is_word U (hd post)"
  shows "translate_code_tokens U (pre @ t @ post) =
           translate_code_tokens U pre @ token_repl U t @ translate_code_tokens U post"
proof -
  from id have ne: "t \<noteq> []" and "\<forall>c\<in>set t. is_ascii_word c" by (auto simp: is_identifier_def)
  then have w: "is_word U (last (pre @ t))" by (simp add: ascii_word_is_word)
  from ne have ne': "pre @ t \<noteq> []" by simp
  from token_sub_suffix[OF ne' w post, of "token_repl U" 0]
  have suf: "re_sub U TOKEN_RE (token_repl U) (pre @ t @ post) (length pre + length t) =
      re_sub U TOKEN_RE (token_repl U) post 0" by simp
  from token_sub_prefix[OF id pre post, of 0 "token_repl U"] suf
  show ?thesis by (simp add: translate_code_tokens_def)
qed


text \<open>
  The substitution keeps a last or first character that is no word character, so a
  token that stands alone in a line stands alone in the rendered line.
\<close>

lemma token_sub_last:
  assumes nw: "\<not> is_word U (last pre)" and pos: "pos < length pre"
  shows "re_sub U TOKEN_RE r pre pos \<noteq> [] \<and> last (re_sub U TOKEN_RE r pre pos) = last pre"
  using pos
proof (induction "length pre - pos" arbitrary: pos rule: less_induct)
  case less
  show ?case
  proof (cases "re_search U TOKEN_RE pre pos")
    case None
    then have "re_sub U TOKEN_RE r pre pos = drop pos pre" by (subst re_sub.simps) simp
    with less.prems show ?thesis by simp
  next
    case (Some m)
    from token_search_Some[OF Some] obtain s e where m: "m = (s, [s, s + 1, e, e])"
      and ps: "pos \<le> s" and te: "token_end U pre s = Some e" and se: "s < e" by auto
    from token_end_inside[OF te nw] have el: "e < length pre" .
    from ps se el have "length pre - e < length pre - pos" by simp
    from less.hyps[OF this el] show ?thesis
      unfolding token_sub_step[OF Some[unfolded m] se, of r] by simp
  qed
qed

lemma token_sub_hd:
  assumes ne: "post \<noteq> []" and nw: "\<not> is_word U (hd post)"
  shows "re_sub U TOKEN_RE r post 0 \<noteq> [] \<and> hd (re_sub U TOKEN_RE r post 0) = hd post"
proof (cases "re_search U TOKEN_RE post 0")
  case None
  then have "re_sub U TOKEN_RE r post 0 = post" by (subst re_sub.simps) simp
  with ne show ?thesis by simp
next
  case (Some m)
  from token_search_Some[OF Some] obtain s e where m: "m = (s, [s, s + 1, e, e])"
    and te: "token_end U post s = Some e" and se: "s < e" by auto
  from te have "is_ident_start (post ! s)" by (simp add: token_end_def split: if_splits)
  then have "is_word U (post ! s)" by (simp add: ident_start_word ascii_word_is_word)
  with nw ne have "s \<noteq> 0" by (cases "s = 0") (simp_all add: hd_conv_nth)
  then have "slice post 0 s \<noteq> [] \<and> hd (slice post 0 s) = hd post"
    using ne by (simp add: slice_def)
  then show ?thesis
    unfolding token_sub_step[OF Some[unfolded m] se, of r] by simp
qed

lemma translate_Nil: "translate_code_tokens U [] = []"
proof -
  have "re_search U TOKEN_RE [] 0 = None"
    by (subst re_search.simps, simp add: token_no_match_at_end[of U "[]", simplified],
        subst re_search.simps, simp)
  then show ?thesis unfolding translate_code_tokens_def by (subst re_sub.simps) simp
qed

text \<open>
  A token stands alone between \<open>pre\<close> and \<open>post\<close> when no word character touches it: the
  character before it and the character after it, where there are any, are not word
  characters.
\<close>

definition standalone :: "unicode \<Rightarrow> ustr \<Rightarrow> ustr \<Rightarrow> bool" where
  "standalone U pre post =
     ((pre = [] \<or> \<not> is_word U (last pre)) \<and> (post = [] \<or> \<not> is_word U (hd post)))"

lemma translate_standalone:
  assumes "standalone U pre post"
  shows "standalone U (translate_code_tokens U pre) (translate_code_tokens U post)"
proof -
  have a: "translate_code_tokens U pre = [] \<or> \<not> is_word U (last (translate_code_tokens U pre))"
  proof (cases "pre = []")
    case True
    then show ?thesis by (simp add: translate_Nil)
  next
    case False
    with assms have nw: "\<not> is_word U (last pre)" by (simp add: standalone_def)
    from False have "0 < length pre" by simp
    from token_sub_last[OF nw this, of "token_repl U"] nw show ?thesis
      by (simp add: translate_code_tokens_def)
  qed
  have b: "translate_code_tokens U post = [] \<or> \<not> is_word U (hd (translate_code_tokens U post))"
  proof (cases "post = []")
    case True
    then show ?thesis by (simp add: translate_Nil)
  next
    case False
    with assms have nw: "\<not> is_word U (hd post)" by (simp add: standalone_def)
    from token_sub_hd[OF False nw, of "token_repl U"] nw show ?thesis
      by (simp add: translate_code_tokens_def)
  qed
  from a b show ?thesis by (simp add: standalone_def)
qed

lemma translate_gap:
  assumes "\<forall>c\<in>set g. \<not> is_ident_start c"
  shows "translate_code_tokens U g = g"
proof -
  have "re_search U TOKEN_RE g 0 = None"
  proof (cases "re_search U TOKEN_RE g 0")
    case None
    then show ?thesis .
  next
    case (Some m)
    from token_search_Some[OF Some] obtain s e where "token_end U g s = Some e" by auto
    then have "s < length g" "is_ident_start (g ! s)"
      by (simp_all add: token_end_def split: if_splits)
    with assms show ?thesis by auto
  qed
  then show ?thesis unfolding translate_code_tokens_def by (subst re_sub.simps) simp
qed

text \<open>
  Claim C3. Every standalone identifier of a line is replaced on its own, whatever
  stands before and after it. An identifier of the composite shape is rendered as the
  mapped subject, the mapped intensity and the mapped sign in that order, each part
  falling back to its English fragment when its dictionary has no entry, whatever the
  whole-token dictionary says; an identifier that is not of the composite shape is
  looked up whole in the token dictionary; and a line without a letter or underscore is
  left as it is. \<open>stability_mild_penalty\<close> is rendered as the three mapped parts, and
  \<open>stability_huge_penalty\<close>, whose middle word is no intensity, is looked up whole.
\<close>

theorem composite_token_translation:
  "(composite t s l g \<and> standalone U pre post \<longrightarrow>
      translate_code_tokens U (pre @ t @ post) =
        translate_code_tokens U pre @
        (dict_get SUBJECT_MAP s s @ dict_get LEVEL_MAP l l @ dict_get SIGN_MAP g g) @
        translate_code_tokens U post) \<and>
   (is_identifier t \<and> (\<forall>s l g. \<not> composite t s l g) \<and> standalone U pre post \<longrightarrow>
      translate_code_tokens U (pre @ t @ post) =
        translate_code_tokens U pre @ dict_get CODE_TOKEN_MAP t t @ translate_code_tokens U post) \<and>
   ((\<forall>c\<in>set line. \<not> is_ident_start c) \<longrightarrow> translate_code_tokens U line = line) \<and>
   (composite t s l g \<longrightarrow>
      translate_code_tokens U t =
        dict_get SUBJECT_MAP s s @ dict_get LEVEL_MAP l l @ dict_get SIGN_MAP g g) \<and>
   (is_identifier t \<and> (\<forall>s l g. \<not> composite t s l g) \<longrightarrow>
      translate_code_tokens U t = dict_get CODE_TOKEN_MAP t t) \<and>
   translate_code_tokens U (S ''stability_mild_penalty'') =
     dict_get SUBJECT_MAP (S ''stability'') (S ''stability'') @
     dict_get LEVEL_MAP (S ''mild'') (S ''mild'') @
     dict_get SIGN_MAP (S ''penalty'') (S ''penalty'') \<and>
   translate_code_tokens U (S ''stability_mild_penalty'') =
     [31283, 23450, 24230, 23567, 24133, 38477, 20302] \<and>
   translate_code_tokens U (S ''stability_huge_penalty'') =
     dict_get CODE_TOKEN_MAP (S ''stability_huge_penalty'') (S ''stability_huge_penalty'')"
proof -
  have ctx: "translate_code_tokens U (pre @ t @ post) =
      translate_code_tokens U pre @ token_repl U t @ translate_code_tokens U post"
    if "is_identifier t" "standalone U pre post" for t pre post
    using that translate_in_context[of t pre U post] by (simp add: standalone_def)
  have cid: "is_identifier t" if "composite t s l g" for t s l g
    using that composite_no_newline[OF that] translate_identifier by simp
  have comp: "translate_code_tokens U t =
        dict_get SUBJECT_MAP s s @ dict_get LEVEL_MAP l l @ dict_get SIGN_MAP g g"
    if "composite t s l g" for t s l g
    using that composite_no_newline[OF that]
    by (simp add: translate_identifier token_repl_composite)
  have plain: "translate_code_tokens U t = dict_get CODE_TOKEN_MAP t t"
    if "is_identifier t" "\<forall>s l g. \<not> composite t s l g" for t
    using that by (simp add: translate_identifier token_repl_plain)
  have c1: "composite (S ''stability_mild_penalty'') (S ''stability'') (S ''mild'') (S ''penalty'')"
    by (simp add: composite_def S_def LEVEL_WORDS_def SIGN_WORDS_def is_ident_start_def)
  have v: "dict_get SUBJECT_MAP (S ''stability'') (S ''stability'') @
     dict_get LEVEL_MAP (S ''mild'') (S ''mild'') @
     dict_get SIGN_MAP (S ''penalty'') (S ''penalty'') =
     [31283, 23450, 24230, 23567, 24133, 38477, 20302]"
    by (simp add: dict_get_def SUBJECT_MAP_def LEVEL_MAP_def SIGN_MAP_def S_def)
  have i2: "is_identifier (S ''stability_huge_penalty'')"
    by (simp add: is_identifier_def S_def is_ident_start_def is_ascii_word_def)
  have n2: "\<forall>s l g. \<not> composite (S ''stability_huge_penalty'') s l g"
  proof -
    have "match_here U SUBJECT_LEVEL_SIGN_RE (S ''stability_huge_penalty'') 0 = None"
      by (simp add: SUBJECT_LEVEL_SIGN_RE_def S_def run_len_def is_ident_start_def
          LEVEL_WORDS_def SIGN_WORDS_def looking_at_def)
    then show ?thesis using sls_match_composite[of "S ''stability_huge_penalty''" _ _ _ U]
      by auto
  qed
  have A: "translate_code_tokens U (pre @ t @ post) =
        translate_code_tokens U pre @
        (dict_get SUBJECT_MAP s s @ dict_get LEVEL_MAP l l @ dict_get SIGN_MAP g g) @
        translate_code_tokens U post"
    if "composite t s l g \<and> standalone U pre post"
    using that ctx[of t pre post] cid[of t s l g] token_repl_composite[of t s l g U] by simp
  have B: "translate_code_tokens U (pre @ t @ post) =
        translate_code_tokens U pre @ dict_get CODE_TOKEN_MAP t t @ translate_code_tokens U post"
    if "is_identifier t \<and> (\<forall>s l g. \<not> composite t s l g) \<and> standalone U pre post"
    using that ctx[of t pre post] token_repl_plain[of t U] by simp
  have C: "translate_code_tokens U line = line" if "\<forall>c\<in>set line. \<not> is_ident_start c"
    using that by (rule translate_gap)
  from A B C comp[of t s l g] plain[of t] comp[OF c1] v plain[OF i2 n2] show ?thesis
    by (intro conjI impI) simp_all
qed


text \<open>
  Claim C9. A standalone identifier that is not of the composite shape and has no entry
  in the token dictionary is rendered as itself wherever it stands in a line, also
  beside tokens that are replaced, and it is still itself when the rendered line is
  rendered again. Alone it is rendered as itself by one pass and by two, and a line all
  of whose tokens are of that kind is left unchanged, by one pass and by two.
\<close>

theorem unmapped_tokens_identity:
  "(is_identifier t \<and> (\<forall>s l g. \<not> composite t s l g) \<and> map_of CODE_TOKEN_MAP t = None \<and>
    standalone U pre post \<longrightarrow>
      translate_code_tokens U (pre @ t @ post) =
        translate_code_tokens U pre @ t @ translate_code_tokens U post \<and>
      translate_code_tokens U (translate_code_tokens U (pre @ t @ post)) =
        translate_code_tokens U (translate_code_tokens U pre) @ t @
        translate_code_tokens U (translate_code_tokens U post)) \<and>
   (is_identifier t \<and> (\<forall>s l g. \<not> composite t s l g) \<and> map_of CODE_TOKEN_MAP t = None \<longrightarrow>
      translate_code_tokens U t = t \<and>
      translate_code_tokens U (translate_code_tokens U t) = t) \<and>
   ((\<forall>tok\<in>set (line_tokens U line).
       (\<forall>s l g. \<not> composite tok s l g) \<and> map_of CODE_TOKEN_MAP tok = None) \<longrightarrow>
      translate_code_tokens U line = line \<and>
      translate_code_tokens U (translate_code_tokens U line) = line)"
proof -
  have ctx: "translate_code_tokens U (pre @ t @ post) =
      translate_code_tokens U pre @ t @ translate_code_tokens U post"
    if "is_identifier t" "\<forall>s l g. \<not> composite t s l g" "map_of CODE_TOKEN_MAP t = None"
      "standalone U pre post" for pre post
    using that translate_in_context[of t pre U post] token_repl_unmapped[of t U]
    by (simp add: standalone_def)
  have A: "translate_code_tokens U (pre @ t @ post) =
        translate_code_tokens U pre @ t @ translate_code_tokens U post \<and>
      translate_code_tokens U (translate_code_tokens U (pre @ t @ post)) =
        translate_code_tokens U (translate_code_tokens U pre) @ t @
        translate_code_tokens U (translate_code_tokens U post)"
    if h: "is_identifier t \<and> (\<forall>s l g. \<not> composite t s l g) \<and> map_of CODE_TOKEN_MAP t = None \<and>
      standalone U pre post"
  proof -
    from h have st: "standalone U pre post" by simp
    from h ctx[of pre post] have one: "translate_code_tokens U (pre @ t @ post) =
        translate_code_tokens U pre @ t @ translate_code_tokens U post" by simp
    from h ctx[OF _ _ _ translate_standalone[OF st]]
    have "translate_code_tokens U (translate_code_tokens U pre @ t @ translate_code_tokens U post) =
        translate_code_tokens U (translate_code_tokens U pre) @ t @
        translate_code_tokens U (translate_code_tokens U post)" by simp
    with one show ?thesis by simp
  qed
  have B: "translate_code_tokens U t = t \<and> translate_code_tokens U (translate_code_tokens U t) = t"
    if "is_identifier t \<and> (\<forall>s l g. \<not> composite t s l g) \<and> map_of CODE_TOKEN_MAP t = None"
    using that by (simp add: translate_identifier token_repl_unmapped)
  have C: "translate_code_tokens U line = line \<and>
      translate_code_tokens U (translate_code_tokens U line) = line"
    if "\<forall>tok\<in>set (line_tokens U line).
       (\<forall>s l g. \<not> composite tok s l g) \<and> map_of CODE_TOKEN_MAP tok = None"
    using translate_unmapped_line[OF that] by simp
  from A B C show ?thesis by blast
qed

lemma not_composite_by_match:
  assumes "match_here U SUBJECT_LEVEL_SIGN_RE t 0 = None"
  shows "\<forall>s l g. \<not> composite t s l g"
  using assms sls_match_composite[of t _ _ _ U] by auto

text \<open>Looking a key up in the token dictionary, one entry at a time.\<close>

lemma S_eq_iff: "S a = S b \<longleftrightarrow> a = b"
  unfolding S_def by (rule inj_map_eq_map) (rule inj_of_char)

lemma map_of_skip: "a \<noteq> k \<Longrightarrow> map_of d k = r \<Longrightarrow> map_of ((a, v) # d) k = r"
  by simp

lemma map_of_hit: "map_of ((k, v) # d) k = Some v"
  by simp

lemma lookup_has_ruler:
  "map_of CODE_TOKEN_MAP (S ''has_ruler'') = Some [23384, 22312, 32479, 27835, 32773]"
  unfolding CODE_TOKEN_MAP_def
  by ((rule map_of_skip, (simp add: S_eq_iff; fail))+, rule map_of_hit)

lemma lookup_huge: "map_of CODE_TOKEN_MAP (S ''stability_huge_penalty'') = None"
  unfolding CODE_TOKEN_MAP_def
  by ((rule map_of_skip, (simp add: S_eq_iff; fail))+, simp)

lemma lookup_foo: "map_of CODE_TOKEN_MAP (S ''foo'') = None"
  unfolding CODE_TOKEN_MAP_def
  by ((rule map_of_skip, (simp add: S_eq_iff; fail))+, simp)

lemma lookup_bar: "map_of CODE_TOKEN_MAP (S ''bar_1'') = None"
  unfolding CODE_TOKEN_MAP_def
  by ((rule map_of_skip, (simp add: S_eq_iff; fail))+, simp)

lemma lookup_in_union_with: "map_of CODE_TOKEN_MAP (S ''in_union_with'') = Some [32852, 32479]"
  unfolding CODE_TOKEN_MAP_def
  by ((rule map_of_skip, (simp add: S_eq_iff; fail))+, rule map_of_hit)

lemma lookup_yes: "map_of CODE_TOKEN_MAP (S ''yes'') = Some [26159]"
  unfolding CODE_TOKEN_MAP_def
  by ((rule map_of_skip, (simp add: S_eq_iff; fail))+, rule map_of_hit)

lemma lookup_OR: "map_of CODE_TOKEN_MAP (S ''OR'') = Some [25110]"
  unfolding CODE_TOKEN_MAP_def by (rule map_of_hit)

lemma lookup_a: "map_of CODE_TOKEN_MAP (S ''a'') = None"
  unfolding CODE_TOKEN_MAP_def
  by ((rule map_of_skip, (simp add: S_eq_iff; fail))+, simp)

lemma lookup_c: "map_of CODE_TOKEN_MAP (S ''c'') = None"
  unfolding CODE_TOKEN_MAP_def
  by ((rule map_of_skip, (simp add: S_eq_iff; fail))+, simp)

lemma lookup_NAP: "map_of CODE_TOKEN_MAP (S ''NAP'') = None"
  unfolding CODE_TOKEN_MAP_def
  by ((rule map_of_skip, (simp add: S_eq_iff; fail))+, simp)

text \<open>The facts that evaluate the patterns and the small dictionaries.\<close>

lemmas token_eval = S_def ascii_only_def SUBJECT_LEVEL_SIGN_RE_def run_len_def is_ident_start_def
  LEVEL_WORDS_def SIGN_WORDS_def looking_at_def is_identifier_def is_ascii_word_def
  composite_def dict_get_def SUBJECT_MAP_def LEVEL_MAP_def SIGN_MAP_def

lemmas context_eval = standalone_def is_word_def token_eval

theorem composite_token_translation_witness:
  "translate_code_tokens ascii_only (S ''a stability_mild_penalty'') =
     S ''a '' @ [31283, 23450, 24230, 23567, 24133, 38477, 20302] \<and>
   translate_code_tokens ascii_only (S ''has_ruler = yes'') =
     [23384, 22312, 32479, 27835, 32773] @ S '' = '' @ [26159] \<and>
   translate_code_tokens ascii_only (S '' = { '') = S '' = { '' \<and>
   translate_code_tokens ascii_only (S ''foo_weak_plus'') = S ''foo'' @ [36731, 24494, 22686, 21152] \<and>
   translate_code_tokens ascii_only (S ''has_ruler'') = [23384, 22312, 32479, 27835, 32773] \<and>
   translate_code_tokens ascii_only (S ''stability_huge_penalty'') = S ''stability_huge_penalty''"
proof -
  let ?U = ascii_only
  note gap = composite_token_translation[where U = ?U and t = "[]" and s = "[]" and l = "[]"
      and g = "[]" and pre = "[]" and post = "[]", THEN conjunct2, THEN conjunct2, THEN conjunct1, THEN mp]
  have g0: "translate_code_tokens ?U [] = []" by (rule gap) simp
  have g1: "translate_code_tokens ?U (S '' '') = S '' ''"
    by (rule gap) (simp add: token_eval)
  have g2: "translate_code_tokens ?U (S '' = '') = S '' = ''"
    by (rule gap) (simp add: token_eval)
  have g3: "translate_code_tokens ?U (S '' = { '') = S '' = { ''"
    by (rule gap) (simp add: token_eval)
  have ia: "is_identifier (S ''a'')" by (simp add: token_eval)
  have na: "\<forall>s l g. \<not> composite (S ''a'') s l g"
    by (rule not_composite_by_match[of ascii_only]) (simp add: token_eval)
  have sa: "standalone ?U [] (S '' '')" by (simp add: context_eval)
  have da: "dict_get CODE_TOKEN_MAP (S ''a'') (S ''a'') = S ''a''"
    by (simp add: dict_get_def lookup_a)
  from composite_token_translation[where U = ?U and t = "S ''a''" and pre = "[]" and post = "S '' ''"
      and s = "[]" and l = "[]" and g = "[]", THEN conjunct2, THEN conjunct1, THEN mp,
      OF conjI[OF ia conjI[OF na sa]]]
  have ta: "translate_code_tokens ?U (S ''a '') = S ''a ''"
    by (simp add: g0 g1 da) (simp add: S_def)
  have c1: "composite (S ''stability_mild_penalty'') (S ''stability'') (S ''mild'') (S ''penalty'')"
    by (simp add: token_eval)
  have v1: "dict_get SUBJECT_MAP (S ''stability'') (S ''stability'') @
      dict_get LEVEL_MAP (S ''mild'') (S ''mild'') @ dict_get SIGN_MAP (S ''penalty'') (S ''penalty'') =
      [31283, 23450, 24230, 23567, 24133, 38477, 20302]"
    by (simp add: token_eval)
  have s1: "standalone ?U (S ''a '') []" by (simp add: context_eval)
  from composite_token_translation[where U = ?U and t = "S ''stability_mild_penalty''"
      and s = "S ''stability''" and l = "S ''mild''" and g = "S ''penalty''"
      and pre = "S ''a ''" and post = "[]", THEN conjunct1, THEN mp, OF conjI[OF c1 s1]]
  have l1: "translate_code_tokens ?U (S ''a stability_mild_penalty'') =
      S ''a '' @ [31283, 23450, 24230, 23567, 24133, 38477, 20302]"
    unfolding v1 ta g0 by (simp add: S_def)
  have iy: "is_identifier (S ''yes'')" by (simp add: token_eval)
  have ny: "\<forall>s l g. \<not> composite (S ''yes'') s l g"
    by (rule not_composite_by_match[of ascii_only]) (simp add: token_eval)
  have sy: "standalone ?U (S '' = '') []" by (simp add: context_eval)
  have dy: "dict_get CODE_TOKEN_MAP (S ''yes'') (S ''yes'') = [26159]"
    by (simp add: dict_get_def lookup_yes)
  from composite_token_translation[where U = ?U and t = "S ''yes''" and pre = "S '' = ''" and post = "[]"
      and s = "[]" and l = "[]" and g = "[]", THEN conjunct2, THEN conjunct1, THEN mp,
      OF conjI[OF iy conjI[OF ny sy]]]
  have ty: "translate_code_tokens ?U (S '' = yes'') = S '' = '' @ [26159]"
    unfolding dy g0 g2 by (simp add: S_def)
  have i1: "is_identifier (S ''has_ruler'')" by (simp add: token_eval)
  have n1: "\<forall>s l g. \<not> composite (S ''has_ruler'') s l g"
    by (rule not_composite_by_match[of ascii_only]) (simp add: token_eval)
  have sh: "standalone ?U [] (S '' = yes'')" by (simp add: context_eval)
  have m1: "dict_get CODE_TOKEN_MAP (S ''has_ruler'') (S ''has_ruler'') =
      [23384, 22312, 32479, 27835, 32773]"
    by (simp add: dict_get_def lookup_has_ruler)
  from composite_token_translation[where U = ?U and t = "S ''has_ruler''" and pre = "[]"
      and post = "S '' = yes''" and s = "[]" and l = "[]" and g = "[]",
      THEN conjunct2, THEN conjunct1, THEN mp, OF conjI[OF i1 conjI[OF n1 sh]]]
  have l2: "translate_code_tokens ?U (S ''has_ruler = yes'') =
      [23384, 22312, 32479, 27835, 32773] @ S '' = '' @ [26159]"
    unfolding m1 g0 ty by (simp add: S_def)
  have c: "composite (S ''foo_weak_plus'') (S ''foo'') (S ''weak'') (S ''plus'')"
    by (simp add: token_eval)
  have v: "dict_get SUBJECT_MAP (S ''foo'') (S ''foo'') @ dict_get LEVEL_MAP (S ''weak'') (S ''weak'') @
      dict_get SIGN_MAP (S ''plus'') (S ''plus'') = S ''foo'' @ [36731, 24494, 22686, 21152]"
    by (simp add: token_eval)
  have m2: "dict_get CODE_TOKEN_MAP (S ''stability_huge_penalty'') (S ''stability_huge_penalty'') =
      S ''stability_huge_penalty''"
    by (simp add: dict_get_def lookup_huge)
  note a = composite_token_translation[where U = ?U and t = "S ''foo_weak_plus''" and s = "S ''foo''"
      and l = "S ''weak''" and g = "S ''plus''" and pre = "[]" and post = "[]",
      THEN conjunct2, THEN conjunct2, THEN conjunct2, THEN conjunct1, THEN mp, OF c]
  note b = composite_token_translation[where U = ?U and t = "S ''has_ruler''" and s = "[]"
      and l = "[]" and g = "[]" and pre = "[]" and post = "[]",
      THEN conjunct2, THEN conjunct2, THEN conjunct2, THEN conjunct2, THEN conjunct1, THEN mp,
      OF conjI[OF i1 n1]]
  note d = composite_token_translation[where U = ?U and t = "[]" and s = "[]"
      and l = "[]" and g = "[]" and pre = "[]" and post = "[]",
      THEN conjunct2, THEN conjunct2, THEN conjunct2, THEN conjunct2, THEN conjunct2, THEN conjunct2,
      THEN conjunct2]
  from l1 l2 g3 a v b m1 d m2 show ?thesis by simp
qed


theorem unmapped_tokens_identity_witness:
  "translate_code_tokens ascii_only (S ''in_union_with = c:NAP'') =
     [32852, 32479] @ S '' = c:NAP'' \<and>
   translate_code_tokens ascii_only (translate_code_tokens ascii_only (S ''in_union_with = c:NAP'')) =
     [32852, 32479] @ S '' = c:NAP'' \<and>
   translate_code_tokens ascii_only (S ''stability_huge_penalty'') = S ''stability_huge_penalty'' \<and>
   line_tokens ascii_only (S ''foo = bar_1 }'') = [S ''foo'', S ''bar_1''] \<and>
   translate_code_tokens ascii_only (S ''foo = bar_1 }'') = S ''foo = bar_1 }'' \<and>
   translate_code_tokens ascii_only (translate_code_tokens ascii_only (S ''foo = bar_1 }'')) =
     S ''foo = bar_1 }''"
proof -
  let ?U = ascii_only
  let ?Z = "[32852, 32479] :: ustr"
  have g0: "translate_code_tokens ?U [] = []" by (rule translate_Nil)
  have g1: "translate_code_tokens ?U (S '' = '') = S '' = ''"
    by (rule translate_gap) (simp add: token_eval)
  have g2: "translate_code_tokens ?U (S '':'') = S '':''"
    by (rule translate_gap) (simp add: token_eval)
  have g3: "translate_code_tokens ?U (?Z @ S '' = '') = ?Z @ S '' = ''"
    by (rule translate_gap) (simp add: token_eval)
  have iu: "is_identifier (S ''in_union_with'')" by (simp add: token_eval)
  have nu: "\<forall>s l g. \<not> composite (S ''in_union_with'') s l g"
    by (rule not_composite_by_match[of ascii_only]) (simp add: token_eval)
  have ru: "token_repl ?U (S ''in_union_with'') = ?Z"
    using token_repl_plain[OF iu nu, of ?U] by (simp add: dict_get_def lookup_in_union_with)
  have "translate_code_tokens ?U ([] @ S ''in_union_with'' @ S '' = '') =
      translate_code_tokens ?U [] @ token_repl ?U (S ''in_union_with'') @
      translate_code_tokens ?U (S '' = '')"
    by (rule translate_in_context[OF iu]) (simp_all add: context_eval)
  then have tu: "translate_code_tokens ?U (S ''in_union_with = '') = ?Z @ S '' = ''"
    unfolding ru g0 g1 by (simp add: S_def)
  have ic: "is_identifier (S ''c'')" by (simp add: token_eval)
  have nc: "\<forall>s l g. \<not> composite (S ''c'') s l g"
    by (rule not_composite_by_match[of ascii_only]) (simp add: token_eval)
  have sc: "standalone ?U (S ''in_union_with = '') (S '':'')" by (simp add: context_eval)
  note c = unmapped_tokens_identity[where U = ?U and t = "S ''c''" and pre = "S ''in_union_with = ''"
      and post = "S '':''" and line = "[]", THEN conjunct1, THEN mp,
      OF conjI[OF ic conjI[OF nc conjI[OF lookup_c sc]]]]
  have pre1: "translate_code_tokens ?U (S ''in_union_with = c:'') = ?Z @ S '' = c:''"
    using c[THEN conjunct1] unfolding tu g2 by (simp add: S_def)
  have "translate_code_tokens ?U (translate_code_tokens ?U (S ''in_union_with = c:'')) =
      ?Z @ S '' = c:''"
    using c[THEN conjunct2] unfolding tu g2 g3 by (simp add: S_def)
  then have pre2: "translate_code_tokens ?U (?Z @ S '' = c:'') = ?Z @ S '' = c:''"
    unfolding pre1 .
  have i: "is_identifier (S ''NAP'')" by (simp add: token_eval)
  have n: "\<forall>s l g. \<not> composite (S ''NAP'') s l g"
    by (rule not_composite_by_match[of ascii_only]) (simp add: token_eval)
  have sn: "standalone ?U (S ''in_union_with = c:'') []" by (simp add: context_eval)
  note w = unmapped_tokens_identity[where U = ?U and t = "S ''NAP''" and pre = "S ''in_union_with = c:''"
      and post = "[]" and line = "[]", THEN conjunct1, THEN mp,
      OF conjI[OF i conjI[OF n conjI[OF lookup_NAP sn]]]]
  have l1: "translate_code_tokens ?U (S ''in_union_with = c:NAP'') = ?Z @ S '' = c:NAP''"
    using w[THEN conjunct1] unfolding pre1 g0 by (simp add: S_def)
  have l2: "translate_code_tokens ?U (translate_code_tokens ?U (S ''in_union_with = c:NAP'')) =
      ?Z @ S '' = c:NAP''"
    using w[THEN conjunct2] unfolding pre1 pre2 g0 by (simp add: S_def)
  have ih: "is_identifier (S ''stability_huge_penalty'')" by (simp add: token_eval)
  have nh: "\<forall>s l g. \<not> composite (S ''stability_huge_penalty'') s l g"
    by (rule not_composite_by_match[of ascii_only]) (simp add: token_eval)
  note a = unmapped_tokens_identity[where U = ?U and t = "S ''stability_huge_penalty''"
      and pre = "[]" and post = "[]" and line = "[]",
      THEN conjunct2, THEN conjunct1, THEN mp, OF conjI[OF ih conjI[OF nh lookup_huge]], THEN conjunct1]
  have lt: "line_tokens ascii_only (S ''foo = bar_1 }'') = [S ''foo'', S ''bar_1'']"
    by (simp add: line_tokens_def finditer.simps re_search.simps TOKEN_RE_def word_boundary_def
        word_at_def is_word_def match_end_def slice_def token_eval)
  have n1: "\<forall>s l g. \<not> composite (S ''foo'') s l g"
    by (rule not_composite_by_match[of ascii_only]) (simp add: token_eval)
  have n2: "\<forall>s l g. \<not> composite (S ''bar_1'') s l g"
    by (rule not_composite_by_match[of ascii_only]) (simp add: token_eval)
  note m1 = lookup_foo and m2 = lookup_bar
  have h: "\<forall>tok\<in>set (line_tokens ascii_only (S ''foo = bar_1 }'')).
      (\<forall>s l g. \<not> composite tok s l g) \<and> map_of CODE_TOKEN_MAP tok = None"
    unfolding lt using n1 n2 m1 m2 by simp
  note b = unmapped_tokens_identity[where U = ?U and t = "[]" and pre = "[]" and post = "[]"
      and line = "S ''foo = bar_1 }''", THEN conjunct2, THEN conjunct2, THEN mp, OF h]
  from l1 l2 a lt b show ?thesis by simp
qed

section \<open>Logical headers of translated lines\<close>

text \<open>
  In \<open>write_event\<close> the second argument of \<open>beautify_logic_line\<close> is the rendering of the
  first: \<open>translate_code_tokens(replace_colon_keys(render_text(content, loc), loc))\<close>. On a
  line without bracket, macro or colon the first two stages change nothing, so the text
  is the token substitution of the content.
\<close>

lemma translate_mapped:
  assumes "is_identifier t" "match_here U SUBJECT_LEVEL_SIGN_RE t 0 = None"
    "map_of CODE_TOKEN_MAP t = Some v" "standalone U pre post"
  shows "translate_code_tokens U (pre @ t @ post) =
           translate_code_tokens U pre @ v @ translate_code_tokens U post"
proof -
  have "token_repl U t = v" using assms(2,3) by (simp add: token_repl_def dict_get_def)
  with translate_in_context[of t pre U post] assms(1,4) show ?thesis
    by (simp add: standalone_def)
qed

text \<open>
  Claim C4. The line \<open>OR = {\<close> with its rendered text becomes the fixed phrase, and the
  inline block \<open>OR = { has_ruler = yes }\<close> is returned untouched, as the claim says. But
  the line \<open>OR = { has_ruler = yes\<close>, whose closing brace stands on a later line, is no
  block opener of exactly the shape \<open>OR = {\<close>, and the function still replaces its text
  by the phrase: \<open>re.match\<close> anchors the pattern at the start of the content only, so the
  condition after the brace is dropped. The docstring of the function says that only
  header lines are rewritten and every other line is left alone, and the comment on the
  guard for inline blocks says that the guard is there to keep the conditions inside.
\<close>

theorem beautify_logic_line_eats_condition:
  "beautify_logic_line ascii_only (S ''OR = {'') (25110 # S '' = {'') = PHRASE_ANY \<and>
   translate_code_tokens ascii_only (S ''OR = { has_ruler = yes'') =
     25110 # S '' = { '' @ [23384, 22312, 32479, 27835, 32773] @ S '' = '' @ [26159] \<and>
   beautify_logic_line ascii_only (S ''OR = { has_ruler = yes'')
     (25110 # S '' = { '' @ [23384, 22312, 32479, 27835, 32773] @ S '' = '' @ [26159]) = PHRASE_ANY \<and>
   py_strip ascii_only (S ''OR = { has_ruler = yes'') \<noteq> S ''OR = {'' \<and>
   beautify_logic_line ascii_only (S ''OR = { has_ruler = yes }'')
     (25110 # S '' = { '' @ [23384, 22312, 32479, 27835, 32773] @ S '' = '' @ [26159] @ S '' }'') =
     25110 # S '' = { '' @ [23384, 22312, 32479, 27835, 32773] @ S '' = '' @ [26159] @ S '' }''"
proof -
  let ?U = ascii_only
  have g0: "translate_code_tokens ?U [] = []" by (rule translate_Nil)
  have g1: "translate_code_tokens ?U (S '' = '') = S '' = ''"
    by (rule translate_gap) (simp add: token_eval)
  have g2: "translate_code_tokens ?U (S '' = { '') = S '' = { ''"
    by (rule translate_gap) (simp add: token_eval)
  have "translate_code_tokens ?U (S '' = '' @ S ''yes'' @ []) =
      translate_code_tokens ?U (S '' = '') @ [26159] @ translate_code_tokens ?U []"
    by (rule translate_mapped[OF _ _ lookup_yes]) (simp_all add: context_eval)
  then have t1: "translate_code_tokens ?U (S '' = yes'') = S '' = '' @ [26159]"
    unfolding g0 g1 by (simp add: S_def)
  have "translate_code_tokens ?U (S '' = { '' @ S ''has_ruler'' @ S '' = yes'') =
      translate_code_tokens ?U (S '' = { '') @ [23384, 22312, 32479, 27835, 32773] @
      translate_code_tokens ?U (S '' = yes'')"
    by (rule translate_mapped[OF _ _ lookup_has_ruler]) (simp_all add: context_eval)
  then have t2: "translate_code_tokens ?U (S '' = { has_ruler = yes'') =
      S '' = { '' @ [23384, 22312, 32479, 27835, 32773] @ S '' = '' @ [26159]"
    unfolding g2 t1 by (simp add: S_def)
  have "translate_code_tokens ?U ([] @ S ''OR'' @ S '' = { has_ruler = yes'') =
      translate_code_tokens ?U [] @ [25110] @ translate_code_tokens ?U (S '' = { has_ruler = yes'')"
    by (rule translate_mapped[OF _ _ lookup_OR]) (simp_all add: context_eval)
  then have t3: "translate_code_tokens ?U (S ''OR = { has_ruler = yes'') =
      25110 # S '' = { '' @ [23384, 22312, 32479, 27835, 32773] @ S '' = '' @ [26159]"
    unfolding g0 t2 by (simp add: S_def)
  have b1: "beautify_logic_line ?U (S ''OR = { has_ruler = yes'')
     (25110 # S '' = { '' @ [23384, 22312, 32479, 27835, 32773] @ S '' = '' @ [26159]) = PHRASE_ANY"
    by (simp add: beautify_logic_line_def Let_def re_match_def block_re_match looking_at_def
        run_len_def logic_eval)
  have b2: "py_strip ?U (S ''OR = { has_ruler = yes'') \<noteq> S ''OR = {''"
    by (simp add: logic_eval)
  have b3: "beautify_logic_line ?U (S ''OR = { has_ruler = yes }'')
     (25110 # S '' = { '' @ [23384, 22312, 32479, 27835, 32773] @ S '' = '' @ [26159] @ S '' }'') =
     25110 # S '' = { '' @ [23384, 22312, 32479, 27835, 32773] @ S '' = '' @ [26159] @ S '' }''"
    by (simp add: beautify_logic_line_def Let_def logic_eval)
  have b0: "beautify_logic_line ?U (S ''OR = {'') (25110 # S '' = {'') = PHRASE_ANY"
    by (simp add: beautify_logic_line_def Let_def re_match_def block_re_match looking_at_def
        run_len_def logic_eval)
  from b0 t3 b1 b2 b3 show ?thesis by blast
qed

section \<open>Option blocks\<close>

text \<open>
  \<open>s.splitlines()\<close>: the line boundaries of Python are the fixed set below, a carriage
  return followed by a line feed counting once, and a final boundary opens no further
  line. \<open>s.rstrip()\<close> removes trailing whitespace.
\<close>

definition is_linebreak :: "nat \<Rightarrow> bool" where
  "is_linebreak c = (c \<in> {10, 11, 12, 13, 28, 29, 30, 133, 8232, 8233})"

fun split_lines :: "ustr \<Rightarrow> bool \<Rightarrow> ustr \<Rightarrow> ustr list" where
  "split_lines acc after_cr [] = (if acc = [] then [] else [rev acc])"
| "split_lines acc after_cr (c # cs) =
     (if after_cr \<and> c = 10 then split_lines acc False cs
      else if c = 13 then rev acc # split_lines [] True cs
      else if is_linebreak c then rev acc # split_lines [] False cs
      else split_lines (c # acc) False cs)"

definition py_splitlines :: "ustr \<Rightarrow> ustr list" where
  "py_splitlines s = split_lines [] False s"

definition py_rstrip :: "unicode \<Rightarrow> ustr \<Rightarrow> ustr" where
  "py_rstrip U s = rev (dropWhile (is_space U) (rev s))"

text \<open>
  The patterns \<open>r"name\s*=\s*([^\s#]+)"\<close> and \<open>r"custom_tooltip\s*=\s*([^\s#]+)"\<close>, matched
  at the start of the stripped line; the result is group 1, between the ends of the
  last two items.
\<close>

definition value_char :: "unicode \<Rightarrow> nat \<Rightarrow> bool" where
  "value_char U c = (\<not> is_space U c \<and> c \<noteq> 35)"

definition assign_re :: "unicode \<Rightarrow> ustr \<Rightarrow> item list" where
  "assign_re U field =
     map Lit field @ [Star (is_space U), Lit 61, Star (is_space U), Plus (value_char U)]"

definition assign_value :: "unicode \<Rightarrow> ustr \<Rightarrow> ustr \<Rightarrow> ustr option" where
  "assign_value U field stripped =
     (case match_here U (assign_re U field) stripped 0 of
        None \<Rightarrow> None
      | Some ends \<Rightarrow>
          Some (slice stripped (ends ! (length field + 2)) (ends ! (length field + 3))))"

text \<open>
  An option is the dict with keys \<open>name\<close>, \<open>lines\<close> and \<open>tooltips\<close>. \<open>option_line\<close> is the body
  of the loop over the lines of one block, with the three variables \<open>name_key\<close>,
  \<open>lines_keep\<close> and \<open>tooltips\<close> as state.
\<close>

record option_block =
  opt_name :: "ustr option"
  opt_lines :: "ustr list"
  opt_tooltips :: "ustr list"

definition option_line :: "unicode \<Rightarrow> option_block \<Rightarrow> ustr \<Rightarrow> option_block" where
  "option_line U opt raw_line =
     (let line = py_rstrip U raw_line; stripped = py_strip U line in
      if stripped = [] then opt
      else if hd stripped = 35 then opt\<lparr>opt_lines := opt_lines opt @ [raw_line]\<rparr>
      else (case assign_value U (S ''name'') stripped of
              Some name_key \<Rightarrow> opt\<lparr>opt_name := Some name_key\<rparr>
            | None \<Rightarrow>
                (case assign_value U (S ''custom_tooltip'') stripped of
                   Some tip \<Rightarrow> opt\<lparr>opt_tooltips := opt_tooltips opt @ [tip]\<rparr>
                 | None \<Rightarrow> opt\<lparr>opt_lines := opt_lines opt @ [raw_line]\<rparr>)))"

definition option_of_block :: "unicode \<Rightarrow> ustr \<Rightarrow> option_block" where
  "option_of_block U block_text =
     foldl (option_line U) \<lparr>opt_name = None, opt_lines = [], opt_tooltips = []\<rparr>
       (py_splitlines block_text)"

text \<open>
  \<open>extract_option_blocks(text)\<close>: the \<open>while True\<close> loop with the scan position \<open>pos\<close> as
  state. It ends at the first search that fails, at a brace that is not found or at a
  brace without a match; otherwise it goes on behind the closing brace.
\<close>

lemma scan_braces_ge: "scan_braces cs i d = Some j \<Longrightarrow> i \<le> j"
proof (induction cs arbitrary: i d)
  case Nil
  then show ?case by simp
next
  case (Cons ch rest)
  then show ?case by (fastforce split: if_splits)
qed

lemma find_matching_brace_ge: "find_matching_brace text start = Some e \<Longrightarrow> start \<le> e"
  unfolding find_matching_brace_def by (rule scan_braces_ge)

function option_blocks_from :: "unicode \<Rightarrow> ustr \<Rightarrow> nat \<Rightarrow> option_block list" where
  "option_blocks_from U text pos =
     (case re_search U (block_re U (S ''option'')) text pos of
        None \<Rightarrow> []
      | Some m \<Rightarrow>
          (case py_find text 123 (match_end m - 1) of
             None \<Rightarrow> []
           | Some brace_start \<Rightarrow>
               (case find_matching_brace text brace_start of
                  None \<Rightarrow> []
                | Some brace_end \<Rightarrow>
                    option_of_block U (py_strip U (slice text (brace_start + 1) brace_end)) #
                    option_blocks_from U text (brace_end + 1))))"
  by pat_completeness auto
termination
proof (relation "measure (\<lambda>(U, t, pos). Suc (length t) - pos)")
  fix U t pos m brace_start brace_end
  assume rs: "re_search U (block_re U (S ''option'')) t pos = Some m"
    and pf: "py_find t 123 (match_end m - 1) = Some brace_start"
    and fm: "find_matching_brace t brace_start = Some brace_end"
  obtain s ends where m: "m = (s, ends)" by (cases m)
  from re_search_Some[OF rs[unfolded m]] have a: "pos \<le> s" "s \<le> length t"
    and mh: "match_here U (block_re U (S ''option'')) t s = Some ends" by auto
  from match_opens_block[OF mh] block_match_nonempty[OF mh]
  have "s + 2 \<le> match_end m" by (simp add: match_end_def m)
  moreover from py_find_Some[OF pf] have "match_end m - 1 \<le> brace_start" by simp
  moreover from find_matching_brace_ge[OF fm] have "brace_start \<le> brace_end" .
  ultimately have "pos < brace_end + 1" using a by simp
  with a show "((U, t, brace_end + 1), U, t, pos) \<in> measure (\<lambda>(U, t, pos). Suc (length t) - pos)"
    by simp
qed simp

declare option_blocks_from.simps [simp del]

definition extract_option_blocks :: "unicode \<Rightarrow> ustr \<Rightarrow> option_block list" where
  "extract_option_blocks U text = option_blocks_from U text 0"



lemma option_blocks_found:
  assumes "re_search U (block_re U (S ''option'')) text 0 = Some (s, ends)"
  shows "option_blocks_from U text 0 =
     (case find_matching_brace text (last ends - 1) of
        None \<Rightarrow> []
      | Some e \<Rightarrow> option_of_block U (py_strip U (slice text (last ends) e)) #
                  option_blocks_from U text (e + 1))"
proof -
  from search_first_block[OF assms] have ne: "ends \<noteq> []" and pos: "0 < last ends"
    and le: "last ends \<le> length text" and br: "text ! (last ends - 1) = 123" by auto
  from pos le have "last ends - 1 < length text" by simp
  from py_find_here[OF this br] have "py_find text 123 (last ends - 1) = Some (last ends - 1)" .
  moreover from pos have "last ends - 1 + 1 = last ends" by simp
  ultimately show ?thesis using assms ne
    by (subst option_blocks_from.simps)
       (simp add: match_end_def del: One_nat_def split: option.splits)
qed

lemma option_blocks_nonempty:
  "extract_option_blocks U text \<noteq> [] \<longleftrightarrow>
     (\<exists>pos b. first_block_at U (S ''option'') text pos b \<and> find_matching_brace text b \<noteq> None)"
proof
  assume ne: "extract_option_blocks U text \<noteq> []"
  then obtain m where rs: "re_search U (block_re U (S ''option'')) text 0 = Some m"
    unfolding extract_option_blocks_def
    by (subst (asm) option_blocks_from.simps) (auto split: option.splits)
  obtain s ends where m: "m = (s, ends)" by (cases m)
  from search_first_block[OF rs[unfolded m]] have fb: "first_block_at U (S ''option'') text s (last ends - 1)"
    by simp
  have "find_matching_brace text (last ends - 1) \<noteq> None"
  proof
    assume "find_matching_brace text (last ends - 1) = None"
    with option_blocks_found[OF rs[unfolded m]] have "option_blocks_from U text 0 = []" by simp
    with ne show False by (simp add: extract_option_blocks_def)
  qed
  with fb show "\<exists>pos b. first_block_at U (S ''option'') text pos b \<and> find_matching_brace text b \<noteq> None"
    by blast
next
  assume "\<exists>pos b. first_block_at U (S ''option'') text pos b \<and> find_matching_brace text b \<noteq> None"
  then obtain pos b e where fb: "first_block_at U (S ''option'') text pos b"
    and fm: "find_matching_brace text b = Some e" by auto
  from first_block_search[OF fb] obtain ends where
    rs: "re_search U (block_re U (S ''option'')) text 0 = Some (pos, ends)" and l: "last ends = b + 1"
    by auto
  from option_blocks_found[OF rs] fm l show "extract_option_blocks U text \<noteq> []"
    by (simp add: extract_option_blocks_def)
qed

lemmas option_eval = option_blocks_from.simps extract_option_blocks_def option_of_block_def
  option_line_def py_splitlines_def py_rstrip_def py_strip_def assign_value_def assign_re_def
  value_char_def is_linebreak_def

text \<open>
  Claim C7, as amended. Named-block extraction succeeds exactly when the keyword opens
  a block somewhere and the brace of the first such place has a matching closing
  brace; repeated-block extraction returns at least one option under the same
  condition for the keyword \<open>option\<close>; the character before the keyword plays no part in
  either. In particular, when a buffer starts with a block of the keyword, putting any
  text in front of it (the head of a longer identifier, say) still leaves a match at or
  before that place.
\<close>

theorem extract_block_no_boundary:
  "(extract_block U text keyword \<noteq> None \<longleftrightarrow>
      (\<exists>pos b. first_block_at U keyword text pos b \<and> find_matching_brace text b \<noteq> None)) \<and>
   (extract_option_blocks U text \<noteq> [] \<longleftrightarrow>
      (\<exists>pos b. first_block_at U (S ''option'') text pos b \<and>
         find_matching_brace text b \<noteq> None)) \<and>
   ((\<exists>b. opens_block_at U keyword text 0 b) \<longrightarrow>
      (\<exists>s ends. re_search U (block_re U keyword) (pre @ text) 0 = Some (s, ends) \<and>
         s \<le> length pre))"
  using extract_block_search[of U "text" keyword pre] option_blocks_nonempty[of U "text"]
  by blast

theorem extract_block_no_boundary_witness:
  "re_search ascii_only (block_re ascii_only (S ''trigger'')) (S ''my_'' @ S ''trigger = { x }'') 0 \<noteq> None \<and>
   extract_block ascii_only (S ''trigger = { x }'') (S ''trigger'') \<noteq> None \<and>
   extract_block ascii_only (S ''trigger = { x '') (S ''trigger'') = None \<and>
   extract_block ascii_only (S ''trigger x '') (S ''trigger'') = None"
proof -
  let ?T = "S ''trigger = { x }''"
  have rs: "re_search ascii_only (block_re ascii_only (S ''trigger'')) ?T 0 =
      Some (0, [1, 2, 3, 4, 5, 6, 7, 8, 9, 10, 11])"
    by (simp add: re_search.simps block_eval)
  from search_first_block[OF rs] have fb: "first_block_at ascii_only (S ''trigger'') ?T 0 10" by simp
  then have ob: "\<exists>b. opens_block_at ascii_only (S ''trigger'') ?T 0 b"
    unfolding first_block_at_def by blast
  have fm: "find_matching_brace ?T 10 \<noteq> None" by (simp add: block_eval)
  from extract_block_no_boundary[of ascii_only ?T "S ''trigger''" "S ''my_''"] ob
  have a: "re_search ascii_only (block_re ascii_only (S ''trigger'')) (S ''my_'' @ ?T) 0 \<noteq> None"
    by fastforce
  from extract_block_no_boundary[of ascii_only ?T "S ''trigger''" "[]"] fb fm
  have b: "extract_block ascii_only ?T (S ''trigger'') \<noteq> None" by blast
  have c: "extract_block ascii_only (S ''trigger = { x '') (S ''trigger'') = None"
    by (simp add: extract_block_def re_search.simps block_eval)
  have d: "extract_block ascii_only (S ''trigger x '') (S ''trigger'') = None"
    by (simp add: extract_block_def re_search.simps block_eval)
  from a b c d show ?thesis by blast
qed

text \<open>
  The claim as stated fails: the keyword \<open>trigger\<close> occurs only inside the identifier
  \<open>my_trigger\<close>, and the block is extracted all the same; so is the option block
  of \<open>my_option\<close>.
\<close>

theorem extract_block_no_boundary_counterexample:
  "extract_block ascii_only (S ''my_trigger = { x }'') (S ''trigger'') = Some (S '' x '') \<and>
   extract_option_blocks ascii_only (S ''my_option = { a }'') =
     [\<lparr>opt_name = None, opt_lines = [S ''a''], opt_tooltips = []\<rparr>]"
  by (simp add: extract_block_def option_eval re_search.simps block_eval)

end
